theory Spec2Isabelle
  imports Main
begin

section \<open>JavaScript strings\<close>

text \<open>
  Strings are lists of characters; a character stands for a code unit of a JavaScript
  string, of which the model has the lowest 256. The string operations the library uses are modelled
  after the JavaScript built-ins: \<^verbatim>\<open>s.indexOf(c)\<close> (the index of the first
  occurrence, or \<open>-1\<close>), \<^verbatim>\<open>s.substring(a, b)\<close> (both indices clamped to the
  string, swapped when \<open>a > b\<close>), \<^verbatim>\<open>s.substring(a)\<close>, the test
  \<^verbatim>\<open>s[0] == c\<close> (false on the empty string, where \<^verbatim>\<open>s[0]\<close> is
  \<^verbatim>\<open>undefined\<close>) and \<^verbatim>\<open>s.trim()\<close>.
\<close>

definition indexOf :: "string \<Rightarrow> char \<Rightarrow> int" where
  "indexOf s c = (if c \<in> set s then int (length (takeWhile (\<lambda>x. x \<noteq> c) s)) else - 1)"

definition clamp_index :: "string \<Rightarrow> int \<Rightarrow> nat" where
  "clamp_index s i = (if i < 0 then 0 else min (nat i) (length s))"

definition substring :: "string \<Rightarrow> int \<Rightarrow> int \<Rightarrow> string" where
  "substring s a b =
     (let a' = clamp_index s a; b' = clamp_index s b;
          lo = min a' b'; hi = max a' b'
      in take (hi - lo) (drop lo s))"

definition substring_from :: "string \<Rightarrow> int \<Rightarrow> string" where
  "substring_from s a = substring s a (int (length s))"

definition first_char_is :: "string \<Rightarrow> char \<Rightarrow> bool" where
  "first_char_is s c = (case s of [] \<Rightarrow> False | x # _ \<Rightarrow> x = c)"

definition is_white_space :: "char \<Rightarrow> bool" where
  "is_white_space c = (c \<in> {CHR 0x09, CHR 0x0A, CHR 0x0B, CHR 0x0C, CHR 0x0D, CHR 0x20, CHR 0xA0})"

definition trim :: "string \<Rightarrow> string" where
  "trim s = rev (dropWhile is_white_space (rev (dropWhile is_white_space s)))"

section \<open>Paths: the functions of Node's \<^verbatim>\<open>path\<close> module that the library calls\<close>

text \<open>
  \<^verbatim>\<open>Path.dirname\<close>, \<^verbatim>\<open>Path.join\<close> and \<^verbatim>\<open>Path.resolve\<close> belong to the platform, not
  to the library; they are modelled after the POSIX flavour of Node's implementation.
  \<^verbatim>\<open>normalizeString\<close> walks the segments between slashes: an empty segment and
  \<^verbatim>\<open>.\<close> are dropped, \<^verbatim>\<open>..\<close> removes the segment before it (or is kept, in a
  relative path, when there is none to remove), every other segment is kept.
\<close>

fun split_on :: "char \<Rightarrow> string \<Rightarrow> string list" where
  "split_on sep [] = [[]]"
| "split_on sep (c # cs) =
     (if c = sep then [] # split_on sep cs
      else (case split_on sep cs of
              [] \<Rightarrow> [[c]]
            | x # xs \<Rightarrow> (c # x) # xs))"

fun join_with :: "char \<Rightarrow> string list \<Rightarrow> string" where
  "join_with sep [] = []"
| "join_with sep [x] = x"
| "join_with sep (x # y # ys) = x @ sep # join_with sep (y # ys)"

text \<open>One segment of \<^verbatim>\<open>normalizeString\<close>; \<open>res\<close> holds the segments kept so far, last first.\<close>

definition normalize_step :: "bool \<Rightarrow> string \<Rightarrow> string list \<Rightarrow> string list" where
  "normalize_step allowAboveRoot seg res =
     (if seg = [] \<or> seg = ''.'' then res
      else if seg = ''..''
      then (if res \<noteq> [] \<and> hd res \<noteq> ''..'' then tl res
            else if allowAboveRoot then ''..'' # res else res)
      else seg # res)"

definition normalizeString :: "string \<Rightarrow> bool \<Rightarrow> string" where
  "normalizeString path allowAboveRoot =
     join_with (CHR ''/'')
       (rev (fold (normalize_step allowAboveRoot) (split_on (CHR ''/'') path) []))"

definition last_char_is :: "string \<Rightarrow> char \<Rightarrow> bool" where
  "last_char_is s c = (s \<noteq> [] \<and> last s = c)"

definition path_normalize :: "string \<Rightarrow> string" where
  "path_normalize path =
     (if path = [] then ''.''
      else (let isAbsolute = first_char_is path (CHR ''/'');
                trailingSeparator = last_char_is path (CHR ''/'');
                p = normalizeString path (\<not> isAbsolute)
            in if p = [] then (if isAbsolute then ''/'' else if trailingSeparator then ''./'' else ''.'')
               else (let p' = (if trailingSeparator then p @ ''/'' else p)
                     in if isAbsolute then CHR ''/'' # p' else p')))"

definition path_join :: "string list \<Rightarrow> string" where
  "path_join args =
     (let parts = filter (\<lambda>a. a \<noteq> []) args
      in if parts = [] then ''.'' else path_normalize (join_with (CHR ''/'') parts))"

text \<open>
  \<^verbatim>\<open>dirname\<close> scans the path from its end down to index 1: trailing slashes are skipped,
  and the path is cut at the first slash found after a character that is not a slash.
  \<open>dirname_end\<close> is that scan over the reversed text of the indices \<open>1\<close> and above; it
  yields the index of the cut.
\<close>

fun dirname_end :: "string \<Rightarrow> bool \<Rightarrow> nat option" where
  "dirname_end [] matchedSlash = None"
| "dirname_end (c # cs) matchedSlash =
     (if c = CHR ''/''
      then (if \<not> matchedSlash then Some (length cs + 1) else dirname_end cs matchedSlash)
      else dirname_end cs False)"

definition path_dirname :: "string \<Rightarrow> string" where
  "path_dirname path =
     (if path = [] then ''.''
      else (let hasRoot = first_char_is path (CHR ''/'')
            in case dirname_end (rev (tl path)) True of
                 None \<Rightarrow> (if hasRoot then ''/'' else ''.'')
               | Some e \<Rightarrow> (if hasRoot \<and> e = 1 then ''//'' else take e path)))"

text \<open>
  \<^verbatim>\<open>Path.resolve(p)\<close> with one argument: \<open>p\<close> itself when it is absolute, else \<open>p\<close>
  on top of the working directory of the process (an absolute path), normalized.
\<close>

definition path_resolve :: "string \<Rightarrow> string \<Rightarrow> string" where
  "path_resolve cwd p =
     (let resolvedPath =
            (if p = [] then cwd @ ''/''
             else if first_char_is p (CHR ''/'') then p @ ''/''
             else cwd @ ''/'' @ p @ ''/'');
          resolvedAbsolute = first_char_is resolvedPath (CHR ''/'');
          r = normalizeString resolvedPath (\<not> resolvedAbsolute)
      in if resolvedAbsolute then CHR ''/'' # r else if r \<noteq> [] then r else ''.'')"

section \<open>Errors and the world outside the process\<close>

text \<open>
  A rejected promise or a thrown exception carries an error object. The library looks at
  one thing only: the \<^verbatim>\<open>code\<close> property, which Node's system errors have
  (\<^verbatim>\<open>'ENOENT'\<close> for a file, a working directory or a program that does not exist,
  \<^verbatim>\<open>'EACCES'\<close>, \<^verbatim>\<open>'EISDIR'\<close>, ...) and the \<^verbatim>\<open>SyntaxError\<close> of
  \<^verbatim>\<open>JSON.parse\<close> has not.
\<close>

datatype error = SystemError string | SyntaxError

fun code :: "error \<Rightarrow> string option" where
  "code (SystemError c) = Some c"
| "code SyntaxError = None"

text \<open>A parsed JSON document, as \<^verbatim>\<open>JSON.parse\<close> reads it from a text.\<close>

datatype json =
    JNull
  | JBool bool
  | JNumber int
  | JString string
  | JArray "json list"
  | JObject "(string \<times> json) list"

text \<open>
  What a run of \<^verbatim>\<open>git\<close> reports when the child process closes: its exit code
  (\<^verbatim>\<open>null\<close> when a signal ended it) and the two captured streams.
\<close>

record proc_result =
  exit_code :: "int option"
  stdout :: string
  stderr :: string

text \<open>
  The world is what the library reaches through the platform: \<^verbatim>\<open>FS.readFile\<close> (the
  text of a file, or a system error), \<^verbatim>\<open>spawn('git', args, {cwd})\<close> (an
  \<^verbatim>\<open>'error'\<close> event when the program cannot be started, else the report at
  \<^verbatim>\<open>'close'\<close>), the working directory of the process and \<^verbatim>\<open>JSON.parse\<close> (\<open>None\<close>
  where it throws its \<^verbatim>\<open>SyntaxError\<close>). The world does not change during a load.
\<close>

record world =
  readFile :: "string \<Rightarrow> error + string"
  spawn_git :: "string \<Rightarrow> string list \<Rightarrow> error + proc_result"
  cwd :: string
  JSON_parse :: "string \<Rightarrow> json option"

section \<open>Repository access: \<^verbatim>\<open>lib/git.js\<close>\<close>

text \<open>
  \<^verbatim>\<open>git(cwd, args)\<close> resolves with \<^verbatim>\<open>{ code, stdout, stderr }\<close> at \<^verbatim>\<open>'close'\<close>
  and rejects at \<^verbatim>\<open>'error'\<close>. The three callers take \<^verbatim>\<open>stdout\<close> out of the report;
  none of them reads \<^verbatim>\<open>code\<close> or \<^verbatim>\<open>stderr\<close>.
\<close>

definition git :: "world \<Rightarrow> string \<Rightarrow> string list \<Rightarrow> error + proc_result" where
  "git w dir args = spawn_git w dir args"

text \<open>
  \<^verbatim>\<open>isBare\<close> and \<^verbatim>\<open>getRoot\<close> wrap their body in \<^verbatim>\<open>try { ... } catch( e ) {}\<close>:
  \<open>try_body\<close> is the body (for \<^verbatim>\<open>getRoot\<close>, \<open>Inr None\<close> is a body that ends
  without a \<^verbatim>\<open>return\<close>), and the function goes on to its last \<^verbatim>\<open>return\<close> when
  the body rejects or ends.
\<close>

definition isBare :: "world \<Rightarrow> string \<Rightarrow> error + bool" where
  "isBare w path =
     (let try_body =
            (case git w path [''rev-parse'', ''--is-bare-repository''] of
               Inl e \<Rightarrow> Inl e
             | Inr r \<Rightarrow> Inr (trim (stdout r) = ''true''))
      in case try_body of
           Inr b \<Rightarrow> Inr b
         | Inl e \<Rightarrow> Inr False)"

definition getRoot :: "world \<Rightarrow> string \<Rightarrow> error + string option" where
  "getRoot w filePath =
     (let try_body =
            (let dirPath = path_dirname filePath
             in case git w dirPath [''rev-parse'', ''--show-toplevel''] of
                  Inl e \<Rightarrow> Inl e
                | Inr r \<Rightarrow> Inr (if stdout r \<noteq> [] then Some (trim (stdout r)) else None))
      in case try_body of
           Inr (Some root) \<Rightarrow> Inr (Some root)
         | Inr None \<Rightarrow> Inr None
         | Inl e \<Rightarrow> Inr None)"

text \<open>\<^verbatim>\<open>x || 'master'\<close>: the default stands in for \<^verbatim>\<open>undefined\<close> and for the empty string.\<close>

definition or_default :: "string option \<Rightarrow> string \<Rightarrow> string" where
  "or_default x d = (case x of None \<Rightarrow> d | Some s \<Rightarrow> if s = [] then d else s)"

definition git_read :: "world \<Rightarrow> string \<Rightarrow> string \<Rightarrow> string option \<Rightarrow> error + string" where
  "git_read w repoDir path commitish =
     (let commitish' = or_default commitish ''master''
      in case git w repoDir [''show'', commitish' @ '':'' @ path] of
           Inl e \<Rightarrow> Inl e
         | Inr r \<Rightarrow> Inr (stdout r))"

section \<open>Source descriptors: \<^verbatim>\<open>lib/source.js\<close>\<close>

text \<open>
  The sources hold a draft of this file and its repaired revision. The model follows the
  revision (the constructor tests \<^verbatim>\<open>idx > -1\<close>, \<^verbatim>\<open>resolve\<close> joins onto
  \<^verbatim>\<open>Path.dirname( this.filePath )\<close>, \<^verbatim>\<open>parseSource\<close> is \<^verbatim>\<open>async\<close>); the draft,
  which is not a program JavaScript accepts (\<^verbatim>\<open>await\<close> in a function that is not
  \<^verbatim>\<open>async\<close>, \<^verbatim>\<open>repoPath\<close> declared twice), is looked at in the last section.
\<close>

record source =
  repoPath :: "string option"
  filePath :: string
  commitish :: "string option"

text \<open>The constructor \<^verbatim>\<open>new Source( repoPath, filePath, commitish )\<close>.\<close>

definition new_Source :: "string option \<Rightarrow> string \<Rightarrow> string option \<Rightarrow> source" where
  "new_Source rp fp c =
     (let idx = indexOf fp (CHR ''#'')
      in if idx > - 1
         then \<lparr>repoPath = rp, filePath = substring fp 0 idx,
               commitish = Some (substring_from fp (idx + 1))\<rparr>
         else \<lparr>repoPath = rp, filePath = fp, commitish = c\<rparr>)"

text \<open>A reference is a path text or a \<^verbatim>\<open>Source\<close> instance (\<^verbatim>\<open>ref instanceof Source\<close>).\<close>

datatype reference = RefPath string | RefSource source

text \<open>\<^verbatim>\<open>ref instanceof Source ? ref.filePath : ref.toString()\<close>\<close>

definition ref_path :: "reference \<Rightarrow> string" where
  "ref_path r = (case r of RefSource s \<Rightarrow> filePath s | RefPath p \<Rightarrow> p)"

definition Source_resolve :: "source \<Rightarrow> reference \<Rightarrow> source" where
  "Source_resolve this r =
     (let fp = ref_path r;
          fp' = (if \<not> first_char_is fp (CHR ''/'')
                 then (let dirname = path_dirname (filePath this)
                       in path_join [dirname, fp])
                 else fp)
      in new_Source (repoPath this) fp' (commitish this))"

text \<open>\<^verbatim>\<open>if( this.repoPath )\<close>: neither \<^verbatim>\<open>null\<close> nor the empty string.\<close>

definition truthy :: "string option \<Rightarrow> bool" where
  "truthy x = (case x of None \<Rightarrow> False | Some s \<Rightarrow> s \<noteq> [])"

definition Source_read :: "world \<Rightarrow> source \<Rightarrow> error + string" where
  "Source_read w this =
     (if truthy (repoPath this)
      then git_read w (the (repoPath this)) (filePath this) (commitish this)
      else readFile w (filePath this))"

text \<open>
  \<^verbatim>\<open>parseSource\<close> looks for a bare repository with
  \<^verbatim>\<open>parts.indexOf( p => p.endsWith('.git') )\<close>. \<^verbatim>\<open>Array.prototype.indexOf\<close> compares the
  elements with its argument by strict equality, and no string of \<open>parts\<close> is equal to a
  function: the index is \<open>-1\<close> for every array, and the branch for bare repositories is
  never entered.
\<close>

definition indexOf_function :: "string list \<Rightarrow> int" where
  "indexOf_function parts = - 1"

definition array_slice :: "'a list \<Rightarrow> int \<Rightarrow> int \<Rightarrow> 'a list" where
  "array_slice xs a b =
     (let n = int (length xs);
          lo = (if a < 0 then max (n + a) 0 else min a n);
          hi = (if b < 0 then max (n + b) 0 else min b n)
      in take (nat (hi - lo)) (drop (nat lo) xs))"

definition parseSource :: "world \<Rightarrow> reference \<Rightarrow> bool \<Rightarrow> error + source" where
  "parseSource w r isPath =
     (case r of
        RefSource s \<Rightarrow> Inr s
      | RefPath p \<Rightarrow>
          if isPath then Inr (new_Source None p None)
          else
            (let parts = split_on (CHR ''/'') p;
                 idx = indexOf_function parts;
                 bare =
                   (if idx > - 1
                    then (let rp = join_with (CHR ''/'') (array_slice parts 0 idx)
                          in case isBare w rp of
                               Inl e \<Rightarrow> Inl e
                             | Inr True \<Rightarrow>
                                 Inr (Some (new_Source (Some rp)
                                   (join_with (CHR ''/'') (array_slice parts idx (int (length parts))))
                                   None))
                             | Inr False \<Rightarrow> Inr None)
                    else Inr None)
             in case bare of
                  Inl e \<Rightarrow> Inl e
                | Inr (Some s) \<Rightarrow> Inr s
                | Inr None \<Rightarrow>
                    (case getRoot w p of
                       Inl e \<Rightarrow> Inl e
                     | Inr root \<Rightarrow>
                         if truthy root
                         then (let fp = path_resolve (cwd w) p;
                                   fp' = substring_from fp (int (length (the root)))
                               in Inr (new_Source root fp' None))
                         else Inr (new_Source None p None))))"

section \<open>Variable expansion: \<open>replace\<close>\<close>

text \<open>
  \<^verbatim>\<open>replace(str, env)\<close> of \<^verbatim>\<open>lib/index.js\<close> loops on the regular expression
  \<^verbatim>\<open>/^(.*)\$\{(\w+)\}(.*)$/\<close>. The expression has no flags, so \<^verbatim>\<open>.\<close> matches
  every character but a line terminator, \<^verbatim>\<open>^\<close> and \<^verbatim>\<open>$\<close> match the two ends
  of the input only, and \<^verbatim>\<open>\w\<close> is a letter, a digit or the underscore. A match
  therefore splits the whole input into a leading text, one token
  \<^verbatim>\<open>${name}\<close> and a trailing text, and the input holds no line terminator.
  The first group is greedy: the regular expression engine tries the longest leading
  text first and backtracks to shorter ones, so the token it reports is the
  \<^emph>\<open>last\<close> position of the input where a token starts.
\<close>

definition is_word_char :: "char \<Rightarrow> bool" where
  "is_word_char c =
     (c \<in> set ''abcdefghijklmnopqrstuvwxyzABCDEFGHIJKLMNOPQRSTUVWXYZ0123456789_'')"

definition is_line_terminator :: "char \<Rightarrow> bool" where
  "is_line_terminator c = (c = CHR 0x0A \<or> c = CHR 0x0D)"

text \<open>A token at the head of the text: its name and the text after it.\<close>

fun token_at :: "string \<Rightarrow> (string \<times> string) option" where
  "token_at (a # b # r) =
     (if a = CHR ''$'' \<and> b = CHR ''{''
      then (let name = takeWhile is_word_char r; rest = dropWhile is_word_char r
            in if name \<noteq> [] \<and> first_char_is rest (CHR ''}'')
               then Some (name, tl rest) else None)
      else None)"
| "token_at _ = None"

text \<open>The longest leading text that is followed by a token.\<close>

fun last_token :: "string \<Rightarrow> (string \<times> string \<times> string) option" where
  "last_token [] = None"
| "last_token (c # cs) =
     (case last_token cs of
        Some (leading, name, trailing) \<Rightarrow> Some (c # leading, name, trailing)
      | None \<Rightarrow>
          (case token_at (c # cs) of
             Some (name, trailing) \<Rightarrow> Some ([], name, trailing)
           | None \<Rightarrow> None))"

definition regex_exec :: "string \<Rightarrow> (string \<times> string \<times> string) option" where
  "regex_exec str = (if list_ex is_line_terminator str then None else last_token str)"

text \<open>
  The variable context is an ordinary object (\<^verbatim>\<open>process.env\<close>, or an object the caller
  passes); the model has its own properties, a map from names to strings. For a name
  that is not among them, \<^verbatim>\<open>env[name]\<close> goes on to \<^verbatim>\<open>Object.prototype\<close>, whose
  properties are functions but \<^verbatim>\<open>__proto__\<close>, which is the prototype object;
  \<open>Object_prototype\<close> gives the text that \<^verbatim>\<open>result += env[name]\<close> appends for them.
  \<^verbatim>\<open>env[name] || ''\<close> is the empty string for a name found in neither place, and for
  a name bound to the empty string.
\<close>

type_synonym env = "string \<rightharpoonup> string"

definition Object_prototype :: "string \<Rightarrow> string option" where
  "Object_prototype name =
     (if name = ''constructor'' then Some ''function Object() { [native code] }''
      else if name = ''__proto__'' then Some ''[object Object]''
      else if name \<in> set [''__defineGetter__'', ''__defineSetter__'', ''hasOwnProperty'',
             ''__lookupGetter__'', ''__lookupSetter__'', ''isPrototypeOf'',
             ''propertyIsEnumerable'', ''toString'', ''valueOf'', ''toLocaleString'']
      then Some (''function '' @ name @ ''() { [native code] }'')
      else None)"

definition env_value :: "env \<Rightarrow> string \<Rightarrow> string" where
  "env_value env name =
     (case env name of
        Some v \<Rightarrow> v
      | None \<Rightarrow> (case Object_prototype name of None \<Rightarrow> [] | Some text \<Rightarrow> text))"

lemma token_at_shape:
  "token_at s = Some (name, trailing) \<Longrightarrow> s = ''${'' @ name @ ''}'' @ trailing \<and> name \<noteq> []"
proof (induction s rule: token_at.induct)
  case (1 a b r)
  let ?rest = "dropWhile is_word_char r"
  from "1.prems" have ab: "a = CHR ''$''" "b = CHR ''{''"
    and nm: "name = takeWhile is_word_char r" "name \<noteq> []"
    and fc: "first_char_is ?rest (CHR ''}'')" and tr: "trailing = tl ?rest"
    by (auto simp: Let_def split: if_splits)
  from fc tr have "?rest = CHR ''}'' # trailing"
    by (cases ?rest) (auto simp: first_char_is_def)
  then have "r = name @ CHR ''}'' # trailing"
    using nm(1) takeWhile_dropWhile_id [of is_word_char r] by simp
  with ab nm show ?case by simp
qed simp_all

lemma last_token_shape:
  "last_token s = Some (leading, name, trailing) \<Longrightarrow>
     s = leading @ ''${'' @ name @ ''}'' @ trailing \<and> name \<noteq> []"
proof (induction s arbitrary: leading)
  case Nil
  then show ?case by simp
next
  case (Cons c cs)
  show ?case
  proof (cases "last_token cs")
    case None
    with Cons.prems obtain "token_at (c # cs) = Some (name, trailing)" and "leading = []"
      by (auto split: option.splits)
    then show ?thesis using token_at_shape by fastforce
  next
    case (Some m)
    with Cons.prems obtain l where "last_token cs = Some (l, name, trailing)" and "leading = c # l"
      by (cases m) auto
    then show ?thesis using Cons.IH by fastforce
  qed
qed

lemma regex_exec_shape:
  "regex_exec s = Some (leading, name, trailing) \<Longrightarrow>
     s = leading @ ''${'' @ name @ ''}'' @ trailing \<and> name \<noteq> []"
  by (auto simp: regex_exec_def dest: last_token_shape split: if_splits)

lemma regex_exec_shorter:
  "regex_exec s = Some (leading, name, trailing) \<Longrightarrow> length trailing < length s"
  by (drule regex_exec_shape) auto

text \<open>
  The loop of \<^verbatim>\<open>replace\<close>: \<open>result\<close> is the text built so far, \<open>str\<close> the text
  still to scan.
\<close>

function replace_loop :: "string \<Rightarrow> string \<Rightarrow> env \<Rightarrow> string" where
  "replace_loop result str env =
     (case regex_exec str of
        Some (leading, name, trailing) \<Rightarrow>
          replace_loop (result @ leading @ env_value env name) trailing env
      | None \<Rightarrow> result @ str)"
  by pat_completeness auto
termination
  by (relation "measure (\<lambda>(result, str, env). length str)")
     (auto dest: regex_exec_shorter)

definition replace :: "string \<Rightarrow> env \<Rightarrow> string" where
  "replace str env = replace_loop [] str env"

text \<open>
  The number of substitutions the loop of \<^verbatim>\<open>replace\<close> performs on a text (one for
  each turn of the loop in which the regular expression matches), and the number of
  positions of a text at which a token starts.
\<close>

function substitutions :: "string \<Rightarrow> nat" where
  "substitutions str =
     (case regex_exec str of
        Some (leading, name, trailing) \<Rightarrow> Suc (substitutions trailing)
      | None \<Rightarrow> 0)"
  by pat_completeness auto
termination
  by (relation "measure length") (auto dest: regex_exec_shorter)

definition token_positions :: "string \<Rightarrow> nat" where
  "token_positions str =
     length (filter (\<lambda>i. token_at (drop i str) \<noteq> None) [0..<length str])"

text \<open>
  The resolver assigns to the properties of the objects it is given
  (\<^verbatim>\<open>value[name] = await resolve( ... )\<close>), so objects and arrays live in a store:
  a value is a primitive or a reference to a cell of the store, and a cell is an array or
  an object with its properties in enumeration order. Numbers are opaque to the library;
  the model carries an integer for them.
\<close>

type_synonym addr = nat

datatype jsval = VNull | VBool bool | VNumber int | VString string | VRef addr

datatype cell = Array "jsval list" | Object "(string \<times> jsval) list"

type_synonym heap = "cell list"

definition lookup :: "heap \<Rightarrow> addr \<Rightarrow> cell option" where
  "lookup h a = (if a < length h then Some (h ! a) else None)"

text \<open>
  \<^verbatim>\<open>JSON.parse\<close> builds its result out of fresh objects and arrays: \<open>alloc\<close> puts a
  parsed document into the store, every array and object in a new cell at the end.
\<close>

fun alloc :: "json \<Rightarrow> heap \<Rightarrow> jsval \<times> heap"
  and alloc_items :: "json list \<Rightarrow> heap \<Rightarrow> jsval list \<times> heap"
  and alloc_props :: "(string \<times> json) list \<Rightarrow> heap \<Rightarrow> (string \<times> jsval) list \<times> heap"
where
  "alloc JNull h = (VNull, h)"
| "alloc (JBool b) h = (VBool b, h)"
| "alloc (JNumber n) h = (VNumber n, h)"
| "alloc (JString s) h = (VString s, h)"
| "alloc (JArray xs) h =
     (case alloc_items xs h of (vs, h') \<Rightarrow> (VRef (length h'), h' @ [Array vs]))"
| "alloc (JObject ps) h =
     (case alloc_props ps h of (qs, h') \<Rightarrow> (VRef (length h'), h' @ [Object qs]))"
| "alloc_items [] h = ([], h)"
| "alloc_items (x # xs) h =
     (case alloc x h of (v, h') \<Rightarrow>
        (case alloc_items xs h' of (vs, h'') \<Rightarrow> (v # vs, h'')))"
| "alloc_props [] h = ([], h)"
| "alloc_props ((k, x) # ps) h =
     (case alloc x h of (v, h') \<Rightarrow>
        (case alloc_props ps h' of (qs, h'') \<Rightarrow> ((k, v) # qs, h'')))"


text \<open>
  \<^verbatim>\<open>value[name]\<close> read and written. An assignment to a name the object has keeps the
  name in its place; an assignment to a name it has not adds the name at the end.
\<close>

definition get_prop :: "heap \<Rightarrow> addr \<Rightarrow> string \<Rightarrow> jsval option" where
  "get_prop h a k =
     (case lookup h a of
        Some (Object props) \<Rightarrow> map_of props k
      | _ \<Rightarrow> None)"

definition set_prop :: "heap \<Rightarrow> addr \<Rightarrow> string \<Rightarrow> jsval \<Rightarrow> heap" where
  "set_prop h a k v =
     (case lookup h a of
        Some (Object props) \<Rightarrow>
          h[a := Object (if k \<in> fst ` set props
                         then map (\<lambda>(k', x). if k' = k then (k', v) else (k', x)) props
                         else props @ [(k, v)])]
      | _ \<Rightarrow> h)"

section \<open>The loader and the link resolver: \<^verbatim>\<open>lib/index.js\<close>\<close>

text \<open>
  The model follows the revision of \<^verbatim>\<open>lib/index.js\<close> that works on \<^verbatim>\<open>Source\<close>
  descriptors (\<^verbatim>\<open>require('./source')\<close>), the one that the revised
  \<^verbatim>\<open>lib/source.js\<close> and \<^verbatim>\<open>lib/git.js\<close> belong to. The revision before it passes
  directory names instead of descriptors; its \<^verbatim>\<open>loadJSON\<close> has the same
  \<^verbatim>\<open>try\<close> and \<^verbatim>\<open>catch\<close>, its \<^verbatim>\<open>resolve\<close> differs in the path it hands to the
  loader (last section).

  \<^verbatim>\<open>loadJSON\<close> and \<^verbatim>\<open>resolve\<close> are asynchronous and call each other; a cycle of
  links between files makes them run for ever. The model counts the depth of the calls:
  \<open>None\<close> says that the depth \<open>n\<close> does not determine the outcome, \<open>Some (Inr x)\<close>
  that the promise is fulfilled with \<open>x\<close>, and \<open>Some (Inl es)\<close> that it is rejected with
  one of the errors \<open>es\<close>: a single error, but for an array, where the error depends on
  the timing of the reads. \<open>None\<close> is also the result for a reference to a cell the
  store has not, which no JavaScript value is.

  \<^item> In \<^verbatim>\<open>resolve\<close>, \<^verbatim>\<open>typeof value\<close> is \<^verbatim>\<open>'object'\<close> for an array, an object and
    \<^verbatim>\<open>null\<close>; \<^verbatim>\<open>for( let name in null )\<close> runs no turn, so \<^verbatim>\<open>null\<close> is returned as
    it is, like a number or a boolean.
  \<^item> For an array the code returns \<^verbatim>\<open>Promise.all( value.map( ... ) )\<close>: every item is
    started, whatever becomes of the others; the result is a new array of the resolved
    items when all of them are fulfilled, and the rejection that comes first in time
    when some are rejected. \<open>resolve_items\<close> goes through all the items: it is
    fulfilled when every item is, rejected with the errors of all the rejected items
    (one of them is the first in time) when every item is determined and some are
    rejected, and not determined otherwise: the errors an array may be rejected with
    are known only when every item has settled, so an array with a rejected item and
    an item that never settles, which the code rejects, is left not determined at
    every depth. The items work on the cells they refer
    to; the model runs them one after the other, each in the store the fulfilled ones
    before it left, which is what their interleaving gives when no cell is referred to
    twice, as in a document that \<^verbatim>\<open>JSON.parse\<close> returns.
  \<^item> For an object the loop \<^verbatim>\<open>for( let name in value )\<close> visits the names the object
    has when the loop starts (\<open>resolve_props\<close>); a name the object has no longer is
    skipped. The loop awaits each value before it goes on, so the first rejection ends
    it.
  \<^item> In \<^verbatim>\<open>loadJSON\<close>, \<open>try_body\<close> is what the \<^verbatim>\<open>try\<close> block awaits or calls
    synchronously: \<^verbatim>\<open>parseSource\<close>, \<^verbatim>\<open>source.read()\<close> and \<^verbatim>\<open>JSON.parse\<close>. The
    block ends with \<^verbatim>\<open>return resolve( data, source, env )\<close>, without \<^verbatim>\<open>await\<close>:
    the promise of \<^verbatim>\<open>resolve\<close> settles after the block is left, and its rejection
    does not reach the \<^verbatim>\<open>catch\<close> clause.
\<close>

type_synonym 'a outcome = "(error list + 'a) option"

function (sequential) resolve :: "nat \<Rightarrow> world \<Rightarrow> jsval \<Rightarrow> source \<Rightarrow> env \<Rightarrow> heap \<Rightarrow> (jsval \<times> heap) outcome"
  and resolve_items ::
    "nat \<Rightarrow> world \<Rightarrow> jsval list \<Rightarrow> source \<Rightarrow> env \<Rightarrow> heap \<Rightarrow> (jsval list \<times> heap) outcome"
  and resolve_props ::
    "nat \<Rightarrow> world \<Rightarrow> addr \<Rightarrow> string list \<Rightarrow> source \<Rightarrow> env \<Rightarrow> heap \<Rightarrow> heap outcome"
  and loadJSON ::
    "nat \<Rightarrow> world \<Rightarrow> reference \<Rightarrow> env \<Rightarrow> bool \<Rightarrow> heap \<Rightarrow> (jsval \<times> heap) outcome"
where
  "resolve 0 w val src env h = None"
| "resolve (Suc n) w val src env h =
     (case val of
        VString s \<Rightarrow>
          if first_char_is s (CHR ''@'')
          then (let path = replace (substring_from s 1) env;
                    required = first_char_is path (CHR ''!'');
                    path' = (if required then substring_from path 1 else path);
                    src' = Source_resolve src (RefPath path')
                in loadJSON n w (RefSource src') env required h)
          else Some (Inr (val, h))
      | VRef a \<Rightarrow>
          (case lookup h a of
             None \<Rightarrow> None
           | Some (Array items) \<Rightarrow>
               (case resolve_items n w items src env h of
                  None \<Rightarrow> None
                | Some (Inl es) \<Rightarrow> Some (Inl es)
                | Some (Inr (items', h')) \<Rightarrow> Some (Inr (VRef (length h'), h' @ [Array items'])))
           | Some (Object props) \<Rightarrow>
               (case resolve_props n w a (map fst props) src env h of
                  None \<Rightarrow> None
                | Some (Inl es) \<Rightarrow> Some (Inl es)
                | Some (Inr h') \<Rightarrow> Some (Inr (VRef a, h'))))
      | _ \<Rightarrow> Some (Inr (val, h)))"
| "resolve_items n w [] src env h = Some (Inr ([], h))"
| "resolve_items n w (i # is) src env h =
     (case resolve n w i src env h of
        None \<Rightarrow> None
      | Some (Inl es) \<Rightarrow>
          (case resolve_items n w is src env h of
             None \<Rightarrow> None
           | Some (Inl es') \<Rightarrow> Some (Inl (es @ es'))
           | Some (Inr (vs, h'')) \<Rightarrow> Some (Inl es))
      | Some (Inr (v, h')) \<Rightarrow>
          (case resolve_items n w is src env h' of
             None \<Rightarrow> None
           | Some (Inl es') \<Rightarrow> Some (Inl es')
           | Some (Inr (vs, h'')) \<Rightarrow> Some (Inr (v # vs, h''))))"
| "resolve_props n w a [] src env h = Some (Inr h)"
| "resolve_props n w a (name # names) src env h =
     (case get_prop h a name of
        None \<Rightarrow> resolve_props n w a names src env h
      | Some x \<Rightarrow>
          (case resolve n w x src env h of
             None \<Rightarrow> None
           | Some (Inl es) \<Rightarrow> Some (Inl es)
           | Some (Inr (v, h')) \<Rightarrow> resolve_props n w a names src env (set_prop h' a name v)))"
| "loadJSON 0 w r env required h = None"
| "loadJSON (Suc n) w r env required h =
     (let try_body =
            (case parseSource w r False of
               Inl e \<Rightarrow> Inl e
             | Inr src \<Rightarrow>
                 (case Source_read w src of
                    Inl e \<Rightarrow> Inl e
                  | Inr text \<Rightarrow>
                      (case JSON_parse w text of
                         None \<Rightarrow> Inl SyntaxError
                       | Some data \<Rightarrow> Inr (src, data))))
      in case try_body of
           Inr (src, data) \<Rightarrow>
             (case alloc data h of (val, h') \<Rightarrow> resolve n w val src env h')
         | Inl e \<Rightarrow>
             if code e = Some ''ENOENT'' \<and> \<not> required then Some (Inr (VNull, h))
             else Some (Inl [e]))"
  by pat_completeness auto
termination
  by (relation "measures
        [\<lambda>x. case x of
               Inl (Inl (n, _)) \<Rightarrow> n
             | Inl (Inr (n, _)) \<Rightarrow> n
             | Inr (Inl (n, _)) \<Rightarrow> n
             | Inr (Inr (n, _)) \<Rightarrow> n,
         \<lambda>x. case x of
               Inl (Inl _) \<Rightarrow> 0
             | Inl (Inr (_, _, is, _)) \<Rightarrow> Suc (length is)
             | Inr (Inl (_, _, _, names, _)) \<Rightarrow> Suc (length names)
             | Inr (Inr _) \<Rightarrow> 0]") auto

section \<open>Variable expansion: what the loop computes\<close>

lemma last_token_suffix_None: "last_token (xs @ ys) = None \<Longrightarrow> last_token ys = None"
  by (induction xs) (auto split: option.splits)

lemma token_at_trailing_suffix:
  "token_at s = Some (name, trailing) \<Longrightarrow> \<exists>pre. tl s = pre @ trailing"
  by (drule token_at_shape) auto

lemma last_token_trailing_None:
  "last_token s = Some (leading, name, trailing) \<Longrightarrow> last_token trailing = None"
proof (induction s arbitrary: leading)
  case Nil
  then show ?case by simp
next
  case (Cons c cs)
  show ?case
  proof (cases "last_token cs")
    case None
    with Cons.prems have "token_at (c # cs) = Some (name, trailing)"
      by (auto split: option.splits)
    then obtain pre where "cs = pre @ trailing"
      using token_at_trailing_suffix by fastforce
    with None show ?thesis using last_token_suffix_None by blast
  next
    case (Some m)
    with Cons.prems obtain l where "last_token cs = Some (l, name, trailing)"
      by (cases m) auto
    then show ?thesis using Cons.IH by blast
  qed
qed

lemma regex_exec_trailing_None:
  "regex_exec s = Some (leading, name, trailing) \<Longrightarrow> regex_exec trailing = None"
  by (auto simp: regex_exec_def dest: last_token_trailing_None split: if_splits)

text \<open>
  After a match the trailing text holds no token, so the second turn of the loop is
  the last one: \<^verbatim>\<open>replace\<close> substitutes the last token of the text and nothing else.
\<close>

lemma replace_unfold:
  "replace str env =
     (case regex_exec str of
        None \<Rightarrow> str
      | Some (leading, name, trailing) \<Rightarrow> leading @ env_value env name @ trailing)"
proof (cases "regex_exec str")
  case None
  then show ?thesis by (simp add: replace_def)
next
  case (Some m)
  obtain l n t where m: "m = (l, n, t)" by (cases m)
  with Some have "regex_exec t = None" using regex_exec_trailing_None by blast
  then have "replace_loop (l @ env_value env n) t env = l @ env_value env n @ t"
    by simp
  with Some m show ?thesis by (simp add: replace_def)
qed

lemma last_token_position:
  "last_token s = Some (leading, name, trailing) \<Longrightarrow>
     token_at (drop (length leading) s) = Some (name, trailing) \<and> length leading < length s"
proof (induction s arbitrary: leading)
  case Nil
  then show ?case by simp
next
  case (Cons c cs)
  show ?case
  proof (cases "last_token cs")
    case None
    with Cons.prems show ?thesis by (auto split: option.splits)
  next
    case (Some m)
    with Cons.prems obtain l where "last_token cs = Some (l, name, trailing)" "leading = c # l"
      by (cases m) auto
    then show ?thesis using Cons.IH by fastforce
  qed
qed

lemma substitutions_le_one: "substitutions str \<le> 1"
proof (cases "regex_exec str")
  case None
  then show ?thesis by simp
next
  case (Some m)
  obtain l n t where m: "m = (l, n, t)" by (cases m)
  with Some have "regex_exec t = None" using regex_exec_trailing_None by blast
  then have "substitutions t = 0" by simp
  with Some m show ?thesis by simp
qed

lemma match_has_position: "regex_exec str \<noteq> None \<Longrightarrow> 1 \<le> token_positions str"
proof -
  assume "regex_exec str \<noteq> None"
  then obtain l n t where "last_token str = Some (l, n, t)"
    by (auto simp: regex_exec_def split: if_splits)
  then have "token_at (drop (length l) str) \<noteq> None" "length l < length str"
    using last_token_position by fastforce+
  then have "length l \<in> set (filter (\<lambda>i. token_at (drop i str) \<noteq> None) [0..<length str])"
    by simp
  then have "filter (\<lambda>i. token_at (drop i str) \<noteq> None) [0..<length str] \<noteq> []"
    by (metis empty_iff empty_set)
  then show ?thesis
    unfolding token_positions_def by (simp add: Suc_le_eq)
qed

lemma substitutions_le_positions: "substitutions str \<le> token_positions str"
proof (cases "regex_exec str")
  case None
  then show ?thesis by simp
next
  case (Some m)
  then have "regex_exec str \<noteq> None" by simp
  then have "1 \<le> token_positions str" by (rule match_has_position)
  with substitutions_le_one [of str] show ?thesis by linarith
qed

subsection \<open>Claims about variable expansion\<close>

text \<open>
  C2. The claim: expansion replaces every \<^verbatim>\<open>${name}\<close> token of the string, any number
  of them, from left to right. The loop of \<^verbatim>\<open>replace\<close> is written to do so and its
  comment promises "all variable references replaced", but the greedy first group of the
  regular expression makes it substitute the last token only: with \<open>a\<close> bound to \<open>x\<close> and
  \<open>b\<close> bound to \<open>y\<close>, the text \<^verbatim>\<open>${a}/${b}\<close> expands to \<^verbatim>\<open>${a}/y\<close>, not to
  \<^verbatim>\<open>x/y\<close>.
\<close>

theorem replace_leaves_earlier_tokens:
  "replace ''${a}/${b}'' [''a'' \<mapsto> ''x'', ''b'' \<mapsto> ''y''] = ''${a}/y''"
  by (simp add: replace_unfold regex_exec_def is_line_terminator_def is_word_char_def
      first_char_is_def env_value_def Object_prototype_def)

text \<open>
  C10. A value substituted for a token is never scanned again: the result is the leading
  text, the value as it stands in the context (whatever it contains, \<^verbatim>\<open>${\<close>
  included) and the trailing text; a text without a match is returned unchanged. The loop
  terminates on every input (\<open>replace_loop\<close> is a total function, by the length of the
  text still to scan) and performs at most one substitution for each token position of
  the original string.
\<close>

theorem replace_value_not_rescanned:
  "replace str env =
     (case regex_exec str of
        None \<Rightarrow> str
      | Some (leading, name, trailing) \<Rightarrow> leading @ env_value env name @ trailing)
   \<and> substitutions str \<le> token_positions str"
  using replace_unfold [of str env] substitutions_le_positions [of str] by simp

theorem replace_value_not_rescanned_witness:
  "replace ''a/${x}/b'' [''x'' \<mapsto> ''${y}'', ''y'' \<mapsto> ''z''] = ''a/${y}/b''
   \<and> substitutions ''a/${x}/b'' \<le> token_positions ''a/${x}/b''"
  using replace_value_not_rescanned [of "''a/${x}/b''" "[''x'' \<mapsto> ''${y}'', ''y'' \<mapsto> ''z'']"]
  by (simp add: regex_exec_def is_line_terminator_def is_word_char_def
      first_char_is_def env_value_def Object_prototype_def)

section \<open>Claims about source descriptors\<close>

lemma indexOf_split:
  "CHR ''#'' \<notin> set before \<Longrightarrow> indexOf (before @ CHR ''#'' # after) (CHR ''#'') = int (length before)"
proof -
  assume a: "CHR ''#'' \<notin> set before"
  then have "takeWhile (\<lambda>x. x \<noteq> CHR ''#'') (before @ CHR ''#'' # after) = before"
    by (induction before) auto
  then show ?thesis by (simp add: indexOf_def)
qed

lemma substring_prefix: "substring (xs @ ys) 0 (int (length xs)) = xs"
  by (simp add: substring_def clamp_index_def Let_def)

lemma substring_from_suffix: "substring_from (xs @ c # ys) (int (length xs) + 1) = ys"
  by (simp add: substring_from_def substring_def clamp_index_def Let_def nat_add_distrib)

lemma new_Source_hash:
  "CHR ''#'' \<notin> set before \<Longrightarrow>
     new_Source rp (before @ CHR ''#'' # after) c =
       \<lparr>repoPath = rp, filePath = before, commitish = Some after\<rparr>"
  by (simp add: new_Source_def indexOf_split substring_prefix substring_from_suffix Let_def)

lemma new_Source_plain:
  "CHR ''#'' \<notin> set fp \<Longrightarrow> new_Source rp fp c = \<lparr>repoPath = rp, filePath = fp, commitish = c\<rparr>"
  by (simp add: new_Source_def indexOf_def)

lemma new_Source_no_hash: "CHR ''#'' \<notin> set (filePath (new_Source rp fp c))"
proof (cases "CHR ''#'' \<in> set fp")
  case True
  then obtain before after where "fp = before @ CHR ''#'' # after" "CHR ''#'' \<notin> set before"
    by (meson split_list_first)
  then show ?thesis by (simp add: new_Source_hash)
next
  case False
  then show ?thesis by (simp add: new_Source_plain)
qed

lemma new_Source_repoPath: "repoPath (new_Source rp fp c) = rp"
  by (simp add: new_Source_def Let_def)

lemma parseSource_path_results:
  "parseSource w (RefPath p) isPath = Inr s \<Longrightarrow> \<exists>rp fp c. s = new_Source rp fp c"
  unfolding parseSource_def indexOf_function_def
  by (auto simp: Let_def split: if_splits sum.splits option.splits)

lemma isBare_Inr: "\<exists>b. isBare w path = Inr b"
  by (cases "git w path [''rev-parse'', ''--is-bare-repository'']") (auto simp: isBare_def)

lemma getRoot_Inr: "\<exists>r. getRoot w path = Inr r"
  by (cases "git w (path_dirname path) [''rev-parse'', ''--show-toplevel'']")
     (auto simp: getRoot_def)

lemma parseSource_total: "\<exists>s. parseSource w r isPath = Inr s"
proof (cases r)
  case (RefPath p)
  obtain root where "getRoot w p = Inr root" using getRoot_Inr by blast
  with RefPath show ?thesis
    by (simp add: parseSource_def indexOf_function_def Let_def)
next
  case (RefSource s)
  then show ?thesis by (simp add: parseSource_def)
qed

lemma Source_resolve_no_hash: "CHR ''#'' \<notin> set (filePath (Source_resolve d r))"
  by (simp add: Source_resolve_def Let_def new_Source_no_hash)

text \<open>
  C8. The \<open>filePath\<close> of a descriptor never holds a \<^verbatim>\<open>#\<close>: the constructor cuts the
  given path at its first \<^verbatim>\<open>#\<close>, the text before it is the \<open>filePath\<close> and the text
  after it the revision, whatever revision was supplied beside the path; a path without
  \<^verbatim>\<open>#\<close> is stored whole, with the supplied revision. Every descriptor that
  \<^verbatim>\<open>parseSource\<close> makes from a path text and every descriptor that
  \<^verbatim>\<open>Source.resolve\<close> returns comes from the constructor.
\<close>

theorem Source_filePath_has_no_revision:
  "CHR ''#'' \<notin> set (filePath (new_Source rp fp c))
   \<and> (\<forall>before after. fp = before @ CHR ''#'' # after \<and> CHR ''#'' \<notin> set before \<longrightarrow>
          new_Source rp fp c = \<lparr>repoPath = rp, filePath = before, commitish = Some after\<rparr>)
   \<and> (CHR ''#'' \<notin> set fp \<longrightarrow>
          new_Source rp fp c = \<lparr>repoPath = rp, filePath = fp, commitish = c\<rparr>)
   \<and> (\<forall>s. parseSource w (RefPath p) isPath = Inr s \<longrightarrow> CHR ''#'' \<notin> set (filePath s))
   \<and> CHR ''#'' \<notin> set (filePath (Source_resolve d r))"
proof -
  have "\<forall>s. parseSource w (RefPath p) isPath = Inr s \<longrightarrow> CHR ''#'' \<notin> set (filePath s)"
    using parseSource_path_results new_Source_no_hash by blast
  then show ?thesis
    using new_Source_no_hash new_Source_hash new_Source_plain Source_resolve_no_hash by blast
qed

text \<open>A world with no file and no \<^verbatim>\<open>git\<close> program.\<close>

definition plain_world :: world where
  "plain_world =
     \<lparr>readFile = (\<lambda>p. Inl (SystemError ''ENOENT'')),
      spawn_git = (\<lambda>d args. Inl (SystemError ''ENOENT'')),
      cwd = ''/'',
      JSON_parse = (\<lambda>t. None)\<rparr>"

theorem Source_filePath_has_no_revision_witness:
  "new_Source None ''data/file.json#live-branch'' (Some ''v1'') =
     \<lparr>repoPath = None, filePath = ''data/file.json'', commitish = Some ''live-branch''\<rparr>
   \<and> new_Source None ''data/file.json'' (Some ''v1'') =
     \<lparr>repoPath = None, filePath = ''data/file.json'', commitish = Some ''v1''\<rparr>
   \<and> parseSource plain_world (RefPath ''/x/a.json#v2'') False =
     Inr \<lparr>repoPath = None, filePath = ''/x/a.json'', commitish = Some ''v2''\<rparr>
   \<and> CHR ''#'' \<notin> set ''/x/a.json''"
  using Source_filePath_has_no_revision [of None "''data/file.json#live-branch''" "Some ''v1''"
      plain_world "''/x/a.json#v2''" False]
    Source_filePath_has_no_revision [of None "''data/file.json''" "Some ''v1''"]
  by (simp add: parseSource_def indexOf_function_def getRoot_def git_def plain_world_def truthy_def
      new_Source_def indexOf_def substring_def substring_from_def clamp_index_def)

text \<open>
  C4. The claim, for a reference whose path is absolute: the result is built from that
  reference directly, and is never re-based against the descriptor. It fails for a
  descriptor inside a repository. The reference below is itself a descriptor, of
  \<^verbatim>\<open>/etc/b.json\<close> at the revision \<^verbatim>\<open>v2\<close> and outside every repository; resolved
  against \<^verbatim>\<open>/x/a.json\<close> of the repository \<^verbatim>\<open>/repo\<close> at the revision \<^verbatim>\<open>v1\<close> it
  gives \<^verbatim>\<open>/etc/b.json\<close> of the repository \<^verbatim>\<open>/repo\<close> at \<^verbatim>\<open>v1\<close>: the repository and
  the revision of the result are those of the descriptor, and those of the reference are
  dropped. The same absolute path resolved against two descriptors gives two results.
\<close>

theorem Source_resolve_absolute_keeps_repository:
  "Source_resolve \<lparr>repoPath = Some ''/repo'', filePath = ''/x/a.json'', commitish = Some ''v1''\<rparr>
      (RefSource \<lparr>repoPath = None, filePath = ''/etc/b.json'', commitish = Some ''v2''\<rparr>)
     = \<lparr>repoPath = Some ''/repo'', filePath = ''/etc/b.json'', commitish = Some ''v1''\<rparr>
   \<and> Source_resolve \<lparr>repoPath = Some ''/repo'', filePath = ''/x/a.json'', commitish = Some ''v1''\<rparr>
      (RefPath ''/etc/b.json'')
     \<noteq> Source_resolve \<lparr>repoPath = None, filePath = ''/x/a.json'', commitish = None\<rparr>
      (RefPath ''/etc/b.json'')"
  by (simp add: Source_resolve_def ref_path_def first_char_is_def new_Source_plain)

text \<open>
  C4, as the code has it. \<^verbatim>\<open>Source.resolve\<close> joins a relative reference onto the
  directory of the descriptor's \<open>filePath\<close>, not onto the \<open>filePath\<close> itself:
  \<^verbatim>\<open>b.json\<close> inside \<^verbatim>\<open>/x/a.json\<close> is \<^verbatim>\<open>/x/b.json\<close>, and \<^verbatim>\<open>../c.json\<close> inside
  \<^verbatim>\<open>/x/y/a.json\<close> is \<^verbatim>\<open>/x/c.json\<close>. A reference whose path is absolute goes to the
  constructor as it is, together with the repository and the revision of the descriptor:
  the path of the result is the path of the reference, the same whatever the
  \<open>filePath\<close> of the descriptor is; the repository of the result is the descriptor's
  in every case, and its revision is the descriptor's unless the path names one after a
  \<^verbatim>\<open>#\<close>. Of a reference that is itself a descriptor only the \<open>filePath\<close> is read.
\<close>

theorem Source_resolve_rebases_on_directory:
  "(\<not> first_char_is (ref_path r) (CHR ''/'') \<longrightarrow>
      Source_resolve d r =
        new_Source (repoPath d) (path_join [path_dirname (filePath d), ref_path r]) (commitish d))
   \<and> (first_char_is (ref_path r) (CHR ''/'') \<longrightarrow>
      Source_resolve d r = new_Source (repoPath d) (ref_path r) (commitish d)
      \<and> filePath (Source_resolve d r) = filePath (new_Source None (ref_path r) None)
      \<and> filePath (Source_resolve d r) = filePath (Source_resolve (d\<lparr>filePath := other\<rparr>) r))
   \<and> (first_char_is (ref_path r) (CHR ''/'') \<and> CHR ''#'' \<notin> set (ref_path r) \<longrightarrow>
      Source_resolve d r = \<lparr>repoPath = repoPath d, filePath = ref_path r, commitish = commitish d\<rparr>)
   \<and> repoPath (Source_resolve d r) = repoPath d
   \<and> Source_resolve d (RefSource s) = Source_resolve d (RefPath (filePath s))
   \<and> Source_resolve (new_Source rp ''/x/a.json'' c) (RefPath ''b.json'') = new_Source rp ''/x/b.json'' c
   \<and> Source_resolve (new_Source rp ''/x/y/a.json'' c) (RefPath ''../c.json'') = new_Source rp ''/x/c.json'' c"
proof -
  have fp: "filePath (new_Source a p b) = filePath (new_Source None p None)" for a p b
    by (simp add: new_Source_def Let_def)
  have rel: "\<not> first_char_is (ref_path r) (CHR ''/'') \<longrightarrow>
      Source_resolve d r =
        new_Source (repoPath d) (path_join [path_dirname (filePath d), ref_path r]) (commitish d)"
    by (simp add: Source_resolve_def ref_path_def Let_def)
  have ab: "first_char_is (ref_path r) (CHR ''/'') \<longrightarrow>
      Source_resolve d' r = new_Source (repoPath d') (ref_path r) (commitish d')" for d'
    by (simp add: Source_resolve_def ref_path_def Let_def)
  have ab2: "first_char_is (ref_path r) (CHR ''/'') \<longrightarrow>
      Source_resolve d r = new_Source (repoPath d) (ref_path r) (commitish d)
      \<and> filePath (Source_resolve d r) = filePath (new_Source None (ref_path r) None)
      \<and> filePath (Source_resolve d r) = filePath (Source_resolve (d\<lparr>filePath := other\<rparr>) r)"
    using ab [of d] ab [of "d\<lparr>filePath := other\<rparr>"] fp by (metis (no_types, lifting))
  have pl: "first_char_is (ref_path r) (CHR ''/'') \<and> CHR ''#'' \<notin> set (ref_path r) \<longrightarrow>
      Source_resolve d r = \<lparr>repoPath = repoPath d, filePath = ref_path r, commitish = commitish d\<rparr>"
    using ab [of d] by (simp add: new_Source_plain)
  have rp: "repoPath (Source_resolve d r) = repoPath d"
    by (simp add: Source_resolve_def Let_def new_Source_repoPath)
  have rs: "Source_resolve d (RefSource s) = Source_resolve d (RefPath (filePath s))"
    by (simp add: Source_resolve_def ref_path_def)
  have e1: "filePath (new_Source rp ''/x/a.json'' c) = ''/x/a.json''"
    "filePath (new_Source rp ''/x/y/a.json'' c) = ''/x/y/a.json''"
    "repoPath (new_Source rp ''/x/a.json'' c) = rp"
    "repoPath (new_Source rp ''/x/y/a.json'' c) = rp"
    "commitish (new_Source rp ''/x/a.json'' c) = c"
    "commitish (new_Source rp ''/x/y/a.json'' c) = c"
    by (simp_all add: new_Source_plain)
  have d1: "path_dirname ''/x/a.json'' = ''/x''" "path_dirname ''/x/y/a.json'' = ''/x/y''"
    by (simp_all add: path_dirname_def first_char_is_def)
  have j1: "path_join [''/x'', ''b.json''] = ''/x/b.json''"
    "path_join [''/x/y'', ''../c.json''] = ''/x/c.json''"
    by (simp_all add: path_join_def path_normalize_def normalizeString_def normalize_step_def
        first_char_is_def last_char_is_def)
  have ex: "Source_resolve (new_Source rp ''/x/a.json'' c) (RefPath ''b.json'') = new_Source rp ''/x/b.json'' c"
    "Source_resolve (new_Source rp ''/x/y/a.json'' c) (RefPath ''../c.json'') = new_Source rp ''/x/c.json'' c"
    by (simp_all add: Source_resolve_def ref_path_def first_char_is_def e1 d1 j1)
  from rel ab2 pl rp rs ex show ?thesis by (intro conjI)
qed

theorem Source_resolve_rebases_on_directory_witness:
  "filePath (Source_resolve \<lparr>repoPath = None, filePath = ''/x/a.json'', commitish = None\<rparr>
      (RefPath ''sub/b.json'')) = ''/x/sub/b.json''
   \<and> filePath (Source_resolve \<lparr>repoPath = None, filePath = ''/x/a.json'', commitish = None\<rparr>
      (RefPath ''/etc/b.json'')) = ''/etc/b.json''
   \<and> Source_resolve \<lparr>repoPath = Some ''/repo'', filePath = ''/x/a.json'', commitish = Some ''v1''\<rparr>
      (RefPath ''/etc/b.json'')
     = \<lparr>repoPath = Some ''/repo'', filePath = ''/etc/b.json'', commitish = Some ''v1''\<rparr>"
  using Source_resolve_rebases_on_directory
      [of "RefPath ''sub/b.json''" "\<lparr>repoPath = None, filePath = ''/x/a.json'', commitish = None\<rparr>"]
    Source_resolve_rebases_on_directory
      [of "RefPath ''/etc/b.json''" "\<lparr>repoPath = None, filePath = ''/x/a.json'', commitish = None\<rparr>"]
    Source_resolve_rebases_on_directory
      [of "RefPath ''/etc/b.json''"
          "\<lparr>repoPath = Some ''/repo'', filePath = ''/x/a.json'', commitish = Some ''v1''\<rparr>"]
  by (simp add: ref_path_def first_char_is_def new_Source_plain path_dirname_def path_join_def
      path_normalize_def normalizeString_def normalize_step_def last_char_is_def)

section \<open>Claims about repository access\<close>

text \<open>
  A world with a bare repository at \<^verbatim>\<open>/srv/repo.git\<close>, where \<^verbatim>\<open>git\<close> cannot be
  started in the missing directory \<^verbatim>\<open>/nowhere\<close> and fails with status 128 on every other
  query.
\<close>

definition git_world :: world where
  "git_world =
     \<lparr>readFile = (\<lambda>p. Inl (SystemError ''ENOENT'')),
      spawn_git = (\<lambda>dir args.
        if dir = ''/nowhere'' then Inl (SystemError ''ENOENT'')
        else if dir = ''/srv/repo.git'' \<and> args = [''rev-parse'', ''--is-bare-repository'']
        then Inr \<lparr>exit_code = Some 0, stdout = ''true'' @ [CHR 0x0A], stderr = ''''\<rparr>
        else Inr \<lparr>exit_code = Some 128, stdout = '''', stderr = ''fatal: not a git repository''\<rparr>),
      cwd = ''/'',
      JSON_parse = (\<lambda>t. None)\<rparr>"

text \<open>
  C7. \<^verbatim>\<open>isBare\<close> never rejects. It answers \<^verbatim>\<open>true\<close> exactly when the query ran and
  printed \<^verbatim>\<open>true\<close> (surrounding white space aside) on its standard output; when
  \<^verbatim>\<open>git\<close> cannot be started, and when it prints anything else (nothing, for a path
  that is not a repository), the answer is \<^verbatim>\<open>false\<close>.
\<close>

theorem isBare_never_raises:
  "(\<exists>b. isBare w path = Inr b)
   \<and> (isBare w path = Inr True \<longleftrightarrow>
        (\<exists>r. git w path [''rev-parse'', ''--is-bare-repository''] = Inr r \<and> trim (stdout r) = ''true''))
   \<and> (\<forall>e. git w path [''rev-parse'', ''--is-bare-repository''] = Inl e \<longrightarrow> isBare w path = Inr False)
   \<and> (\<forall>r. git w path [''rev-parse'', ''--is-bare-repository''] = Inr r \<and> trim (stdout r) \<noteq> ''true''
          \<longrightarrow> isBare w path = Inr False)"
  by (cases "git w path [''rev-parse'', ''--is-bare-repository'']") (auto simp: isBare_def)

theorem isBare_never_raises_witness:
  "isBare git_world ''/srv/repo.git'' = Inr True
   \<and> isBare git_world ''/nowhere'' = Inr False
   \<and> isBare git_world ''/home/u'' = Inr False"
  using isBare_never_raises [of git_world "''/srv/repo.git''"]
    isBare_never_raises [of git_world "''/nowhere''"]
    isBare_never_raises [of git_world "''/home/u''"]
  by (simp add: git_def git_world_def trim_def is_white_space_def)

text \<open>
  C6. The claim: when \<^verbatim>\<open>git\<close> exits with a status other than zero, or cannot be
  started, \<^verbatim>\<open>read\<close> fails with an error that carries the exit code and the standard
  error stream, and does not resolve with the standard output. The code does not do so:
  a run that ends with status 128 and an empty standard output makes \<^verbatim>\<open>read\<close>
  resolve with the empty string.
\<close>

theorem git_read_resolves_on_failed_exit:
  "git git_world ''/home/u'' [''show'', ''master:a.json''] =
     Inr \<lparr>exit_code = Some 128, stdout = '''', stderr = ''fatal: not a git repository''\<rparr>
   \<and> git_read git_world ''/home/u'' ''a.json'' None = Inr ''''"
  by (simp add: git_read_def git_def git_world_def or_default_def)

text \<open>
  C6, as the code has it: whenever \<^verbatim>\<open>git\<close> runs to its close, \<^verbatim>\<open>read\<close> resolves with
  the captured standard output, whatever the exit code and the standard error stream are;
  it rejects only when \<^verbatim>\<open>git\<close> cannot be started, with the error of the platform.
\<close>

theorem git_read_returns_stdout:
  "(\<forall>r. git w repoDir [''show'', or_default c ''master'' @ '':'' @ path] = Inr r \<longrightarrow>
        git_read w repoDir path c = Inr (stdout r))
   \<and> (\<forall>e. git w repoDir [''show'', or_default c ''master'' @ '':'' @ path] = Inl e \<longrightarrow>
        git_read w repoDir path c = Inl e)"
  by (simp add: git_read_def Let_def)

theorem git_read_returns_stdout_witness:
  "git_read git_world ''/srv/repo.git'' ''a.json'' (Some ''v1'') = Inr ''''
   \<and> git_read git_world ''/nowhere'' ''a.json'' (Some ''v1'') = Inl (SystemError ''ENOENT'')"
  using git_read_returns_stdout [of git_world "''/srv/repo.git''" "Some ''v1''" "''a.json''"]
    git_read_returns_stdout [of git_world "''/nowhere''" "Some ''v1''" "''a.json''"]
  by (simp add: git_def git_world_def or_default_def)

section \<open>Claims about the loader and the link resolver\<close>

text \<open>
  A world to run the loader in. Its files are the documents
  \<^verbatim>\<open>{"b":"@b.json"}\<close> at \<^verbatim>\<open>/x/a.json\<close>, the malformed text \<^verbatim>\<open>{\<close> at
  \<^verbatim>\<open>/x/b.json\<close>, \<^verbatim>\<open>null\<close> at \<^verbatim>\<open>/x/n.json\<close>,
  \<^verbatim>\<open>{"m":"@missing.json","l":["@n.json"]}\<close> at \<^verbatim>\<open>/x/o.json\<close>,
  \<^verbatim>\<open>["@!missing.json"]\<close> at \<^verbatim>\<open>/x/r.json\<close> and \<^verbatim>\<open>["@b.json","@!missing.json"]\<close> at
  \<^verbatim>\<open>/x/p.json\<close>; \<^verbatim>\<open>/x/locked.json\<close> cannot be read
  (\<^verbatim>\<open>EACCES\<close>) and every other file is absent (\<^verbatim>\<open>ENOENT\<close>). No directory is inside a
  repository. \<^verbatim>\<open>JSON.parse\<close> is given on the texts of these files; it rejects every
  other text.
\<close>

definition quoted :: "string \<Rightarrow> string" where
  "quoted s = CHR 0x22 # s @ [CHR 0x22]"

definition demo_files :: "(string \<times> string) list" where
  "demo_files =
     [(''/x/a.json'', ''{'' @ quoted ''b'' @ '':'' @ quoted ''@b.json'' @ ''}''),
      (''/x/b.json'', ''{''),
      (''/x/n.json'', ''null''),
      (''/x/o.json'', ''{'' @ quoted ''m'' @ '':'' @ quoted ''@missing.json'' @ '',''
                        @ quoted ''l'' @ '':['' @ quoted ''@n.json'' @ '']}''),
      (''/x/r.json'', ''['' @ quoted ''@!missing.json'' @ '']''),
      (''/x/p.json'', ''['' @ quoted ''@b.json'' @ '','' @ quoted ''@!missing.json'' @ '']'')]"

definition demo_documents :: "(string \<times> json) list" where
  "demo_documents =
     [(''{'' @ quoted ''b'' @ '':'' @ quoted ''@b.json'' @ ''}'', JObject [(''b'', JString ''@b.json'')]),
      (''null'', JNull),
      (''{'' @ quoted ''m'' @ '':'' @ quoted ''@missing.json'' @ '',''
          @ quoted ''l'' @ '':['' @ quoted ''@n.json'' @ '']}'',
       JObject [(''m'', JString ''@missing.json''), (''l'', JArray [JString ''@n.json''])]),
      (''['' @ quoted ''@!missing.json'' @ '']'', JArray [JString ''@!missing.json'']),
      (''['' @ quoted ''@b.json'' @ '','' @ quoted ''@!missing.json'' @ '']'',
       JArray [JString ''@b.json'', JString ''@!missing.json''])]"

definition demo_world :: world where
  "demo_world =
     \<lparr>readFile = (\<lambda>p. if p = ''/x/locked.json'' then Inl (SystemError ''EACCES'')
                      else case map_of demo_files p of
                             Some text \<Rightarrow> Inr text
                           | None \<Rightarrow> Inl (SystemError ''ENOENT'')),
      spawn_git = (\<lambda>dir args.
        Inr \<lparr>exit_code = Some 128, stdout = '''', stderr = ''fatal: not a git repository''\<rparr>),
      cwd = ''/x'',
      JSON_parse = map_of demo_documents\<rparr>"

lemma loadJSON_unfold:
  "parseSource w r False = Inr src \<Longrightarrow>
   loadJSON (Suc n) w r env required h =
     (case Source_read w src of
        Inl e \<Rightarrow>
          if code e = Some ''ENOENT'' \<and> \<not> required then Some (Inr (VNull, h)) else Some (Inl [e])
      | Inr text \<Rightarrow>
          (case JSON_parse w text of
             None \<Rightarrow> Some (Inl [SyntaxError])
           | Some data \<Rightarrow> (case alloc data h of (val, h') \<Rightarrow> resolve n w val src env h')))"
  by (simp split: sum.splits option.splits)

text \<open>
  A plain file is absent when reading it fails with the code \<^verbatim>\<open>ENOENT\<close>, which is
  what \<^verbatim>\<open>fs.readFile\<close> reports for a path that names no file.
\<close>

definition file_absent :: "world \<Rightarrow> string \<Rightarrow> bool" where
  "file_absent w p = (case readFile w p of Inl e \<Rightarrow> code e = Some ''ENOENT'' | Inr text \<Rightarrow> False)"

text \<open>
  C1, as the code has it. A failure of the read is turned into \<^verbatim>\<open>null\<close> only when its
  code is \<^verbatim>\<open>ENOENT\<close> and \<open>required\<close> is false; every other failure of the read, and
  \<^verbatim>\<open>ENOENT\<close> when \<open>required\<close> is true, is the rejection of the load. For a
  descriptor outside every repository, whose file is read with \<^verbatim>\<open>fs.readFile\<close>, the
  result of a load is \<^verbatim>\<open>null\<close> exactly in two cases: the file is absent and
  \<open>required\<close> is false (and then the store is as it was), or the file was read and
  parsed and the resolver returned \<^verbatim>\<open>null\<close> for its document.
\<close>

theorem loadJSON_null_results:
  assumes "parseSource w r False = Inr src"
  shows "(\<forall>e. Source_read w src = Inl e \<longrightarrow>
            loadJSON (Suc n) w r env required h =
              (if code e = Some ''ENOENT'' \<and> \<not> required then Some (Inr (VNull, h))
               else Some (Inl [e])))
       \<and> (\<not> truthy (repoPath src) \<longrightarrow>
            (loadJSON (Suc n) w r env required h = Some (Inr (VNull, h')) \<longleftrightarrow>
               (\<not> required \<and> h' = h \<and> file_absent w (filePath src))
               \<or> (\<exists>text data. readFile w (filePath src) = Inr text \<and> JSON_parse w text = Some data
                     \<and> (case alloc data h of (val, h0) \<Rightarrow> resolve n w val src env h0)
                         = Some (Inr (VNull, h')))))"
proof -
  have a: "\<forall>e. Source_read w src = Inl e \<longrightarrow>
            loadJSON (Suc n) w r env required h =
              (if code e = Some ''ENOENT'' \<and> \<not> required then Some (Inr (VNull, h))
               else Some (Inl [e]))"
    using loadJSON_unfold [OF assms, of n env required h] by simp
  have b: "loadJSON (Suc n) w r env required h = Some (Inr (VNull, h')) \<longleftrightarrow>
               (\<not> required \<and> h' = h \<and> file_absent w (filePath src))
               \<or> (\<exists>text data. readFile w (filePath src) = Inr text \<and> JSON_parse w text = Some data
                     \<and> (case alloc data h of (val, h0) \<Rightarrow> resolve n w val src env h0)
                         = Some (Inr (VNull, h')))"
    if p: "\<not> truthy (repoPath src)"
  proof -
    from p have rd: "Source_read w src = readFile w (filePath src)"
      by (simp add: Source_read_def)
    show ?thesis
      using loadJSON_unfold [OF assms, of n env required h]
      unfolding rd file_absent_def
      by (cases "readFile w (filePath src)")
         (auto split: option.splits if_splits)
  qed
  from a b show ?thesis by blast
qed

theorem loadJSON_null_results_witness:
  "loadJSON 1 demo_world (RefPath ''/x/zz.json'') Map.empty False [] = Some (Inr (VNull, []))
   \<and> loadJSON 1 demo_world (RefPath ''/x/zz.json'') Map.empty True [] = Some (Inl [SystemError ''ENOENT''])
   \<and> loadJSON 1 demo_world (RefPath ''/x/locked.json'') Map.empty False [] = Some (Inl [SystemError ''EACCES''])
   \<and> file_absent demo_world ''/x/zz.json''"
proof -
  have p: "parseSource demo_world (RefPath p) False = Inr \<lparr>repoPath = None, filePath = p, commitish = None\<rparr>"
    if "CHR ''#'' \<notin> set p" for p
    using that
    by (simp add: parseSource_def indexOf_function_def getRoot_def git_def demo_world_def truthy_def
        new_Source_plain)
  have p1: "parseSource demo_world (RefPath ''/x/zz.json'') False =
      Inr \<lparr>repoPath = None, filePath = ''/x/zz.json'', commitish = None\<rparr>"
    by (rule p) simp
  have p2: "parseSource demo_world (RefPath ''/x/locked.json'') False =
      Inr \<lparr>repoPath = None, filePath = ''/x/locked.json'', commitish = None\<rparr>"
    by (rule p) simp
  have r1: "Source_read demo_world \<lparr>repoPath = None, filePath = ''/x/zz.json'', commitish = None\<rparr>
      = Inl (SystemError ''ENOENT'')"
    by (simp add: Source_read_def truthy_def demo_world_def demo_files_def)
  have r2: "Source_read demo_world \<lparr>repoPath = None, filePath = ''/x/locked.json'', commitish = None\<rparr>
      = Inl (SystemError ''EACCES'')"
    by (simp add: Source_read_def truthy_def demo_world_def)
  have f: "file_absent demo_world ''/x/zz.json''"
    by (simp add: file_absent_def demo_world_def demo_files_def)
  show ?thesis
    using loadJSON_null_results [OF p1, of 0 Map.empty False "[]" "[]"]
      loadJSON_null_results [OF p1, of 0 Map.empty True "[]"]
      loadJSON_null_results [OF p2, of 0 Map.empty False "[]"]
      f
    by (simp add: r1 r2 truthy_def del: loadJSON.simps)
qed

text \<open>
  C1. The claim: the result is \<^verbatim>\<open>null\<close> exactly when the target file of an optional
  reference is absent. It fails for a file that is present and holds the document
  \<^verbatim>\<open>null\<close>: the load returns \<^verbatim>\<open>null\<close>, with \<open>required\<close> true.
\<close>

theorem loadJSON_null_for_present_file:
  "readFile demo_world ''/x/n.json'' = Inr ''null''
   \<and> loadJSON 2 demo_world (RefPath ''/x/n.json'') Map.empty True [] = Some (Inr (VNull, []))"
  by code_simp

text \<open>
  Inside a repository the file is read with \<^verbatim>\<open>git show\<close>, and \<^verbatim>\<open>read\<close> resolves
  with the standard output whatever the exit status is. When \<^verbatim>\<open>git show\<close> ends, as it
  does with a non-zero status and an empty output for a path that the revision does not
  have, the load goes on to parse the output: a text that \<^verbatim>\<open>JSON.parse\<close> rejects makes
  the load fail with the \<^verbatim>\<open>SyntaxError\<close>, also when \<open>required\<close> is false. No
  \<^verbatim>\<open>ENOENT\<close> is seen on this path unless \<^verbatim>\<open>git\<close> itself cannot be started.
\<close>

lemma loadJSON_after_git_show:
  assumes "parseSource w r False = Inr src" and "repoPath src = Some rp" and "rp \<noteq> []"
    and "git w rp [''show'', or_default (commitish src) ''master'' @ '':'' @ filePath src] = Inr res"
    and "JSON_parse w (stdout res) = None"
  shows "loadJSON (Suc n) w r env required h = Some (Inl [SyntaxError])"
proof -
  from assms(2-4) have "Source_read w src = Inr (stdout res)"
    by (simp add: Source_read_def truthy_def git_read_def Let_def)
  with loadJSON_unfold [OF assms(1), of n env required h] assms(5) show ?thesis by simp
qed

lemma loadJSON_after_failed_git_show:
  "git git_world ''/home/u'' [''show'', ''master:a.json''] =
     Inr \<lparr>exit_code = Some 128, stdout = '''', stderr = ''fatal: not a git repository''\<rparr>
   \<and> loadJSON 1 git_world
        (RefSource \<lparr>repoPath = Some ''/home/u'', filePath = ''a.json'', commitish = None\<rparr>)
        Map.empty False [] = Some (Inl [SyntaxError])"
  by code_simp

lemma resolve_string_unfold:
  "first_char_is s (CHR ''@'') \<Longrightarrow>
   resolve (Suc n) w (VString s) src env h =
     (let path = replace (substring_from s 1) env;
          required = first_char_is path (CHR ''!'');
          path' = (if required then substring_from path 1 else path)
      in loadJSON n w (RefSource (Source_resolve src (RefPath path'))) env required h)"
  by (simp add: Let_def)

text \<open>
  The claim C3 words the analysis of a link in another order than the code: the marker
  \<^verbatim>\<open>!\<close> is looked for right after the sigil, and the variables are expanded in the
  text that remains. \<open>spec_link_required\<close> and \<open>spec_link_path\<close> follow these words.
\<close>

definition spec_link_required :: "string \<Rightarrow> bool" where
  "spec_link_required s = first_char_is (substring_from s 1) (CHR ''!'')"

definition spec_link_path :: "string \<Rightarrow> env \<Rightarrow> string" where
  "spec_link_path s env =
     replace (if spec_link_required s then substring_from s 2 else substring_from s 1) env"

lemma substring_from_Cons: "substring_from (c # s) 1 = s"
  by (simp add: substring_from_def substring_def clamp_index_def Let_def)

lemma substring_from_Cons2: "substring_from (c # d # s) 2 = s"
  by (simp add: substring_from_def substring_def clamp_index_def Let_def)

lemma substring_from_Nil: "substring_from [] k = []"
  by (simp add: substring_from_def substring_def clamp_index_def Let_def)

lemma regex_exec_Cons:
  "c \<noteq> CHR ''$'' \<Longrightarrow> \<not> is_line_terminator c \<Longrightarrow>
   regex_exec (c # t) =
     (case regex_exec t of None \<Rightarrow> None | Some (l, n, r) \<Rightarrow> Some (c # l, n, r))"
  by (cases t) (auto simp: regex_exec_def split: option.splits)

lemma replace_Cons:
  "c \<noteq> CHR ''$'' \<Longrightarrow> \<not> is_line_terminator c \<Longrightarrow> replace (c # t) env = c # replace t env"
  by (simp add: replace_unfold regex_exec_Cons split: option.splits)

lemma replace_first_char:
  assumes "c \<noteq> CHR ''$''"
  shows "\<exists>t'. replace (c # t) env = c # t'"
proof (cases "regex_exec (c # t)")
  case None
  then show ?thesis by (simp add: replace_unfold)
next
  case (Some m)
  obtain l n r where m: "m = (l, n, r)" by (cases m)
  with Some have sh: "c # t = l @ ''${'' @ n @ ''}'' @ r" using regex_exec_shape by blast
  with assms obtain l' where "l = c # l'" by (cases l) auto
  with Some m show ?thesis by (simp add: replace_unfold)
qed

lemma link_marker_first:
  assumes "\<not> first_char_is rest (CHR ''$'')"
  shows "first_char_is (replace rest env) (CHR ''!'') = first_char_is rest (CHR ''!'')
       \<and> (if first_char_is rest (CHR ''!'') then substring_from (replace rest env) 1
           else replace rest env)
         = replace (if first_char_is rest (CHR ''!'') then substring_from rest 1 else rest) env"
proof (cases rest)
  case Nil
  then show ?thesis by (simp add: replace_unfold regex_exec_def first_char_is_def)
next
  case (Cons c t)
  with assms have c: "c \<noteq> CHR ''$''" by (simp add: first_char_is_def)
  show ?thesis
  proof (cases "c = CHR ''!''")
    case True
    then have "replace (c # t) env = c # replace t env"
      by (simp add: replace_Cons is_line_terminator_def)
    with Cons True show ?thesis by (simp add: first_char_is_def substring_from_Cons)
  next
    case False
    obtain t' where "replace (c # t) env = c # t'" using replace_first_char [OF c] by blast
    with Cons False show ?thesis by (simp add: first_char_is_def)
  qed
qed

text \<open>
  C3, as the code has it. For a string that begins with \<^verbatim>\<open>@\<close> the resolver drops the
  sigil, expands the variables of the remaining text, then sets \<open>required\<close> and drops
  the marker when the expanded text begins with \<^verbatim>\<open>!\<close>, re-bases the path on the
  descriptor of the containing document and returns what \<^verbatim>\<open>loadJSON\<close> returns for the
  re-based descriptor and the flag: the path loaded is the expanded path without the
  marker. When the text after the sigil does not begin with \<^verbatim>\<open>$\<close>, looking for the
  marker before the expansion, as the claim words it, gives the same load.
\<close>

theorem resolve_link:
  assumes "first_char_is s (CHR ''@'')"
  shows "resolve (Suc n) w (VString s) src env h =
           (let path = replace (substring_from s 1) env;
                required = first_char_is path (CHR ''!'');
                path' = (if required then substring_from path 1 else path)
            in loadJSON n w (RefSource (Source_resolve src (RefPath path'))) env required h)
       \<and> (\<not> first_char_is (substring_from s 1) (CHR ''$'') \<longrightarrow>
            resolve (Suc n) w (VString s) src env h =
              loadJSON n w (RefSource (Source_resolve src (RefPath (spec_link_path s env)))) env
                (spec_link_required s) h)"
proof -
  from assms obtain rest where s: "s = CHR ''@'' # rest"
    by (cases s) (auto simp: first_char_is_def)
  have two: "substring_from (CHR ''@'' # rest) 2 = substring_from rest 1"
    by (cases rest) (simp_all add: substring_from_Cons2 substring_from_Cons substring_from_def
        substring_def clamp_index_def)
  have "\<not> first_char_is rest (CHR ''$'') \<longrightarrow>
      resolve (Suc n) w (VString s) src env h =
        loadJSON n w (RefSource (Source_resolve src (RefPath (spec_link_path s env)))) env
          (spec_link_required s) h"
  proof
    assume a: "\<not> first_char_is rest (CHR ''$'')"
    show "resolve (Suc n) w (VString s) src env h =
        loadJSON n w (RefSource (Source_resolve src (RefPath (spec_link_path s env)))) env
          (spec_link_required s) h"
      using link_marker_first [OF a, of env] resolve_string_unfold [OF assms, of n w src env h]
      by (simp add: Let_def spec_link_path_def spec_link_required_def two s substring_from_Cons
          del: resolve.simps)
  qed
  then show ?thesis
    using resolve_string_unfold [OF assms, of n w src env h] by (simp add: s substring_from_Cons)
qed

theorem resolve_link_witness:
  "resolve (Suc 1) demo_world (VString ''@!zz.json'') \<lparr>repoPath = None, filePath = ''/x/a.json'', commitish = None\<rparr>
      Map.empty [] = Some (Inl [SystemError ''ENOENT''])
   \<and> resolve (Suc 2) demo_world (VString ''@${d}/n.json'') \<lparr>repoPath = None, filePath = ''/x/y/a.json'', commitish = None\<rparr>
      [''d'' \<mapsto> ''..''] [] = Some (Inr (VNull, []))"
proof -
  have a: "first_char_is ''@!zz.json'' (CHR ''@'')" "first_char_is ''@${d}/n.json'' (CHR ''@'')"
    by (simp_all add: first_char_is_def)
  have e1: "(let path = replace (substring_from ''@!zz.json'' 1) Map.empty;
                required = first_char_is path (CHR ''!'');
                path' = (if required then substring_from path 1 else path)
            in loadJSON 1 demo_world (RefSource (Source_resolve
                 \<lparr>repoPath = None, filePath = ''/x/a.json'', commitish = None\<rparr> (RefPath path')))
                 Map.empty required []) = Some (Inl [SystemError ''ENOENT''])"
    by code_simp
  have e2: "(let path = replace (substring_from ''@${d}/n.json'' 1) [''d'' \<mapsto> ''..''];
                required = first_char_is path (CHR ''!'');
                path' = (if required then substring_from path 1 else path)
            in loadJSON 2 demo_world (RefSource (Source_resolve
                 \<lparr>repoPath = None, filePath = ''/x/y/a.json'', commitish = None\<rparr> (RefPath path')))
                 [''d'' \<mapsto> ''..''] required []) = Some (Inr (VNull, []))"
    by code_simp
  have r1: "resolve (Suc 1) demo_world (VString ''@!zz.json'')
      \<lparr>repoPath = None, filePath = ''/x/a.json'', commitish = None\<rparr> Map.empty []
      = Some (Inl [SystemError ''ENOENT''])"
    by (rule trans [OF conjunct1 [OF resolve_link [OF a(1)]] e1])
  have r2: "resolve (Suc 2) demo_world (VString ''@${d}/n.json'')
      \<lparr>repoPath = None, filePath = ''/x/y/a.json'', commitish = None\<rparr> [''d'' \<mapsto> ''..''] []
      = Some (Inr (VNull, []))"
    by (rule trans [OF conjunct1 [OF resolve_link [OF a(2)]] e2])
  from r1 r2 show ?thesis by (rule conjI)
qed

text \<open>
  C3. The claim: \<open>required\<close> is set when the character after the sigil is \<^verbatim>\<open>!\<close>, else
  it is false, and the variables are expanded in the text that remains. It fails for
  the link \<^verbatim>\<open>@${m}zz.json\<close> with \<open>m\<close> bound to \<^verbatim>\<open>!\<close>, inside \<^verbatim>\<open>/x/a.json\<close>: the
  code expands first, finds the marker in the expanded text and loads \<^verbatim>\<open>/x/zz.json\<close>
  as a required file, which is absent, so the link is rejected; as the claim words it
  the link is optional, its path is \<^verbatim>\<open>!zz.json\<close>, and it resolves to \<^verbatim>\<open>null\<close>.
\<close>

theorem marker_from_variable_makes_link_required:
  "resolve 2 demo_world (VString ''@${m}zz.json'')
      \<lparr>repoPath = None, filePath = ''/x/a.json'', commitish = None\<rparr> [''m'' \<mapsto> ''!''] []
     = Some (Inl [SystemError ''ENOENT''])
   \<and> spec_link_required ''@${m}zz.json'' = False
   \<and> spec_link_path ''@${m}zz.json'' [''m'' \<mapsto> ''!''] = ''!zz.json''
   \<and> loadJSON 1 demo_world
        (RefSource (Source_resolve \<lparr>repoPath = None, filePath = ''/x/a.json'', commitish = None\<rparr>
           (RefPath (spec_link_path ''@${m}zz.json'' [''m'' \<mapsto> ''!'']))))
        [''m'' \<mapsto> ''!''] (spec_link_required ''@${m}zz.json'') []
     = Some (Inr (VNull, []))"
  by code_simp

lemma resolve_items_not_fulfilled:
  "resolve n w i src env h = Some (Inl es) \<Longrightarrow> resolve_items n w (i # is) src env h \<noteq> Some (Inr x)"
  by (simp split: option.splits sum.splits)

lemma resolve_items_candidates:
  "resolve n w i src env h = Some (Inl es) \<Longrightarrow>
   resolve_items n w (i # is) src env h = Some (Inl es') \<Longrightarrow> set es \<subseteq> set es'"
  by (auto split: option.splits sum.splits)

lemma resolve_items_later_rejection:
  "resolve n w i src env h = Some (Inr (v, h1)) \<Longrightarrow>
   resolve_items n w (i # is) src env h = Some (Inr x) \<Longrightarrow>
   \<exists>y. resolve_items n w is src env h1 = Some (Inr y)"
  by (auto split: option.splits sum.splits)

text \<open>
  C5. A load whose file is read and whose text \<^verbatim>\<open>JSON.parse\<close> rejects is rejected with
  the \<^verbatim>\<open>SyntaxError\<close>, whatever \<open>required\<close> is: the error has no code, so the
  \<^verbatim>\<open>catch\<close> clause throws it again. Nothing between a nested load and the caller
  turns a rejection into a value. A link is resolved to the outcome of its load, and a
  load whose document was parsed returns the outcome of the resolver (its \<^verbatim>\<open>catch\<close>
  clause does not see that outcome). An object is rejected with the rejection of the
  first property value that is rejected. An array with a rejected item is never fulfilled,
  whatever the other items do: when it is rejected, the errors of that item are among the
  errors it may be rejected with, the one that comes first in time being reported; and an
  array whose later items are not all fulfilled is not fulfilled either. In the witness the
  array \<^verbatim>\<open>["@b.json","@!missing.json"]\<close> has a malformed first item and a missing
  required second one: it is rejected, with one of the two errors.
\<close>

theorem parse_failure_is_fatal:
  "(parseSource w r False = Inr src \<and> Source_read w src = Inr text \<and> JSON_parse w text = None
      \<longrightarrow> loadJSON (Suc n) w r env required h = Some (Inl [SyntaxError]))
   \<and> (parseSource w r False = Inr src \<and> Source_read w src = Inr text
        \<and> JSON_parse w text = Some data \<and> alloc data h = (val, h0)
      \<longrightarrow> loadJSON (Suc n) w r env required h = resolve n w val src env h0)
   \<and> (first_char_is s (CHR ''@'')
      \<longrightarrow> (\<exists>src' req. resolve (Suc n) w (VString s) src env h
                         = loadJSON n w (RefSource src') env req h))
   \<and> (lookup h a = Some (Array items) \<and> resolve_items n w items src env h = Some (Inl es)
      \<longrightarrow> resolve (Suc n) w (VRef a) src env h = Some (Inl es))
   \<and> (lookup h a = Some (Object props)
        \<and> resolve_props n w a (map fst props) src env h = Some (Inl es)
      \<longrightarrow> resolve (Suc n) w (VRef a) src env h = Some (Inl es))
   \<and> (resolve n w i src env h = Some (Inl es)
      \<longrightarrow> (\<forall>x. resolve_items n w (i # is) src env h \<noteq> Some (Inr x))
          \<and> (\<forall>es'. resolve_items n w (i # is) src env h = Some (Inl es') \<longrightarrow> set es \<subseteq> set es'))
   \<and> (resolve n w i src env h = Some (Inr (v, h1))
        \<and> (\<forall>x. resolve_items n w is src env h1 \<noteq> Some (Inr x))
      \<longrightarrow> (\<forall>x. resolve_items n w (i # is) src env h \<noteq> Some (Inr x)))
   \<and> (get_prop h a name = Some x \<and> resolve n w x src env h = Some (Inl es)
      \<longrightarrow> resolve_props n w a (name # names) src env h = Some (Inl es))
   \<and> (get_prop h a name = Some x \<and> resolve n w x src env h = Some (Inr (v, h1))
        \<and> resolve_props n w a names src env (set_prop h1 a name v) = Some (Inl es)
      \<longrightarrow> resolve_props n w a (name # names) src env h = Some (Inl es))"
proof -
  have link: "first_char_is s (CHR ''@'')
      \<longrightarrow> (\<exists>src' req. resolve (Suc n) w (VString s) src env h
                         = loadJSON n w (RefSource src') env req h)"
    using resolve_string_unfold [of s n w src env h] by (metis (no_types))
  have load1: "parseSource w r False = Inr src \<and> Source_read w src = Inr text
      \<and> JSON_parse w text = None
      \<longrightarrow> loadJSON (Suc n) w r env required h = Some (Inl [SyntaxError])"
    using loadJSON_unfold [of w r src n env required h] by simp
  have load2: "parseSource w r False = Inr src \<and> Source_read w src = Inr text
        \<and> JSON_parse w text = Some data \<and> alloc data h = (val, h0)
      \<longrightarrow> loadJSON (Suc n) w r env required h = resolve n w val src env h0"
    using loadJSON_unfold [of w r src n env required h] by simp
  have it1: "resolve n w i src env h = Some (Inl es)
      \<longrightarrow> (\<forall>x. resolve_items n w (i # is) src env h \<noteq> Some (Inr x))
          \<and> (\<forall>es'. resolve_items n w (i # is) src env h = Some (Inl es') \<longrightarrow> set es \<subseteq> set es')"
    using resolve_items_not_fulfilled resolve_items_candidates by blast
  have it2: "resolve n w i src env h = Some (Inr (v, h1))
        \<and> (\<forall>x. resolve_items n w is src env h1 \<noteq> Some (Inr x))
      \<longrightarrow> (\<forall>x. resolve_items n w (i # is) src env h \<noteq> Some (Inr x))"
    using resolve_items_later_rejection by blast
  show ?thesis
    using link load1 load2 it1 it2
    by (simp del: resolve_items.simps)
qed

theorem parse_failure_is_fatal_witness:
  "loadJSON (Suc 0) demo_world (RefPath ''/x/b.json'') Map.empty False [] = Some (Inl [SyntaxError])
   \<and> loadJSON (Suc 0) demo_world (RefPath ''/x/b.json'') Map.empty True [] = Some (Inl [SyntaxError])
   \<and> loadJSON 4 demo_world (RefPath ''/x/a.json'') Map.empty False [] = Some (Inl [SyntaxError])
   \<and> loadJSON 4 demo_world (RefPath ''/x/a.json'') Map.empty True [] = Some (Inl [SyntaxError])
   \<and> loadJSON 4 demo_world (RefPath ''/x/p.json'') Map.empty False []
       = Some (Inl [SyntaxError, SystemError ''ENOENT''])"
proof -
  have p: "parseSource demo_world (RefPath ''/x/b.json'') False =
      Inr \<lparr>repoPath = None, filePath = ''/x/b.json'', commitish = None\<rparr>"
    by code_simp
  have r: "Source_read demo_world \<lparr>repoPath = None, filePath = ''/x/b.json'', commitish = None\<rparr>
      = Inr ''{''"
    by code_simp
  have j: "JSON_parse demo_world ''{'' = None"
    by code_simp
  have nested:
    "loadJSON 4 demo_world (RefPath ''/x/a.json'') Map.empty False [] = Some (Inl [SyntaxError])"
    "loadJSON 4 demo_world (RefPath ''/x/a.json'') Map.empty True [] = Some (Inl [SyntaxError])"
    "loadJSON 4 demo_world (RefPath ''/x/p.json'') Map.empty False []
       = Some (Inl [SyntaxError, SystemError ''ENOENT''])"
    by code_simp+
  show ?thesis
    using parse_failure_is_fatal [of demo_world "RefPath ''/x/b.json''"
        "\<lparr>repoPath = None, filePath = ''/x/b.json'', commitish = None\<rparr>" "''{''" 0 Map.empty False "[]"]
      parse_failure_is_fatal [of demo_world "RefPath ''/x/b.json''"
        "\<lparr>repoPath = None, filePath = ''/x/b.json'', commitish = None\<rparr>" "''{''" 0 Map.empty True "[]"]
      p r j nested
    by (simp del: loadJSON.simps resolve.simps resolve_items.simps resolve_props.simps)
qed

section \<open>The resolver and the store\<close>

text \<open>
  What the resolver leaves alone in the store. \<open>same_shape c c'\<close>: an array cell is the
  same array, an object cell is an object with the same names in the same order.
  \<open>heap_le h h'\<close>: the store \<open>h'\<close> has every cell of \<open>h\<close> at its address, in the same
  shape, and may have more cells.
\<close>

fun same_shape :: "cell \<Rightarrow> cell \<Rightarrow> bool" where
  "same_shape (Array xs) c = (c = Array xs)"
| "same_shape (Object ps) (Object ps') = (map fst ps' = map fst ps)"
| "same_shape (Object ps) (Array xs) = False"

definition heap_le :: "heap \<Rightarrow> heap \<Rightarrow> bool" where
  "heap_le h h' = (length h \<le> length h' \<and> (\<forall>a < length h. same_shape (h ! a) (h' ! a)))"

lemma same_shape_refl: "same_shape c c"
  by (cases c) simp_all

lemma same_shape_trans: "same_shape c1 c2 \<Longrightarrow> same_shape c2 c3 \<Longrightarrow> same_shape c1 c3"
  by (cases c1; cases c2; cases c3) simp_all

lemma heap_le_refl: "heap_le h h"
  by (simp add: heap_le_def same_shape_refl)

lemma heap_le_trans: "heap_le h1 h2 \<Longrightarrow> heap_le h2 h3 \<Longrightarrow> heap_le h1 h3"
  unfolding heap_le_def by (meson le_trans less_le_trans same_shape_trans)

lemma heap_le_append: "heap_le h (h @ ext)"
  by (simp add: heap_le_def nth_append same_shape_refl)

lemma alloc_appends:
  "alloc data h = (v, h') \<Longrightarrow> \<exists>ext. h' = h @ ext"
  "alloc_items xs h = (vs, h') \<Longrightarrow> \<exists>ext. h' = h @ ext"
  "alloc_props ps h = (qs, h') \<Longrightarrow> \<exists>ext. h' = h @ ext"
proof (induction data h and xs h and ps h arbitrary: v h' and vs h' and qs h'
    rule: alloc_alloc_items_alloc_props.induct)
  case (5 xs h)
  then show ?case by (fastforce split: prod.splits)
next
  case (6 ps h)
  then show ?case by (fastforce split: prod.splits)
next
  case (8 x xs h)
  then show ?case by (fastforce split: prod.splits)
next
  case (10 k x ps h)
  then show ?case by (fastforce split: prod.splits)
qed auto

lemma alloc_heap_le: "alloc data h = (v, h') \<Longrightarrow> heap_le h h'"
  using alloc_appends(1) heap_le_append by blast

lemma set_prop_heap_le:
  assumes "get_prop h a k = Some x"
  shows "heap_le h (set_prop h a k v)"
proof -
  from assms obtain ps where l: "lookup h a = Some (Object ps)" and m: "map_of ps k = Some x"
    by (auto simp: get_prop_def split: option.splits cell.splits)
  from m have k: "k \<in> fst ` set ps" by (metis domI dom_map_of_conv_image_fst)
  from l have a: "a < length h" "h ! a = Object ps"
    by (auto simp: lookup_def split: if_splits)
  have keys: "map fst (map (\<lambda>(k', x). if k' = k then (k', v) else (k', x)) ps) = map fst ps"
    by (induction ps) auto
  show ?thesis
    using l k a keys
    by (auto simp: heap_le_def set_prop_def nth_list_update same_shape_refl)
qed

lemma get_prop_heap_le:
  assumes "heap_le h h1" and "get_prop h a k = Some x"
  shows "\<exists>y. get_prop h1 a k = Some y"
proof -
  from assms(2) obtain ps where l: "lookup h a = Some (Object ps)" and m: "map_of ps k = Some x"
    by (auto simp: get_prop_def split: option.splits cell.splits)
  from m have k: "k \<in> fst ` set ps" by (metis domI dom_map_of_conv_image_fst)
  from l have a: "a < length h" "h ! a = Object ps"
    by (auto simp: lookup_def split: if_splits)
  with assms(1) have "same_shape (Object ps) (h1 ! a)" "a < length h1"
    by (auto simp: heap_le_def)
  then obtain ps' where p: "h1 ! a = Object ps'" "map fst ps' = map fst ps"
    by (cases "h1 ! a") auto
  with k have "k \<in> fst ` set ps'" by (metis list.set_map)
  then obtain y where "map_of ps' k = Some y"
    by (metis domD dom_map_of_conv_image_fst)
  with p \<open>a < length h1\<close> show ?thesis by (auto simp: get_prop_def lookup_def)
qed


text \<open>
  Every fulfilled call of the resolver and of the loader leaves the store in the relation
  \<open>heap_le\<close> with the store it started from, and an array is resolved item by item. The
  proof follows the calls of the four functions.
\<close>

lemma resolve_heap_le:
  "\<forall>v h'. resolve n w val src env h = Some (Inr (v, h')) \<longrightarrow> heap_le h h'"
  "\<forall>vs h'. resolve_items n w items src env h = Some (Inr (vs, h'))
      \<longrightarrow> heap_le h h' \<and> length vs = length items"
  "\<forall>h'. resolve_props n w a names src env h = Some (Inr h') \<longrightarrow> heap_le h h'"
  "\<forall>v h'. loadJSON n w r env required h = Some (Inr (v, h')) \<longrightarrow> heap_le h h'"
proof (induction n w val src env h and n w items src env h and n w a names src env h
    and n w r env required h rule: resolve_resolve_items_resolve_props_loadJSON.induct)
  case (1 w val src env h)
  then show ?case by simp
next
  case (2 n w val src env h)
  show ?case
  proof (intro allI impI)
    fix v h'
    assume res: "resolve (Suc n) w val src env h = Some (Inr (v, h'))"
    show "heap_le h h'"
    proof (cases val)
      case (VString s)
      show ?thesis
      proof (cases "first_char_is s (CHR ''@'')")
        case True
        with res VString 2(1) show ?thesis by (simp add: Let_def)
      next
        case False
        with res VString show ?thesis by (simp add: heap_le_refl)
      qed
    next
      case (VRef x)
      show ?thesis
      proof (cases "lookup h x")
        case None
        with res VRef show ?thesis by simp
      next
        case (Some c)
        show ?thesis
        proof (cases c)
          case (Array items)
          with res VRef Some obtain items' h1 where
            r: "resolve_items n w items src env h = Some (Inr (items', h1))"
            and h': "h' = h1 @ [Array items']"
            by (auto split: option.splits sum.splits)
          from 2(2) [OF VRef Some Array] r have "heap_le h h1" by simp
          with h' show ?thesis using heap_le_append heap_le_trans by blast
        next
          case (Object props)
          with res VRef Some have
            r: "resolve_props n w x (map fst props) src env h = Some (Inr h')"
            by (auto split: option.splits sum.splits)
          from 2(3) [OF VRef Some Object] r show ?thesis by simp
        qed
      qed
    qed (use res in \<open>simp_all add: heap_le_refl\<close>)
  qed
next
  case (3 n w src env h)
  then show ?case by (simp add: heap_le_refl)
next
  case (4 n w i "is" src env h)
  show ?case
  proof (intro allI impI)
    fix vs h'
    assume res: "resolve_items n w (i # is) src env h = Some (Inr (vs, h'))"
    then obtain v h1 vs' where r1: "resolve n w i src env h = Some (Inr (v, h1))"
      and r2: "resolve_items n w is src env h1 = Some (Inr (vs', h'))" and vs: "vs = v # vs'"
      by (auto split: option.splits sum.splits)
    from 4(1) r1 have a: "heap_le h h1" by simp
    from 4(3) [OF r1 refl refl] r2 have "heap_le h1 h' \<and> length vs' = length is" by simp
    with a vs show "heap_le h h' \<and> length vs = length (i # is)"
      using heap_le_trans by auto
  qed
next
  case (5 n w a src env h)
  then show ?case by (simp add: heap_le_refl)
next
  case (6 n w a name names src env h)
  show ?case
  proof (intro allI impI)
    fix h'
    assume res: "resolve_props n w a (name # names) src env h = Some (Inr h')"
    show "heap_le h h'"
    proof (cases "get_prop h a name")
      case None
      with res 6(1) show ?thesis by simp
    next
      case (Some x)
      with res obtain v h1 where r1: "resolve n w x src env h = Some (Inr (v, h1))"
        and r2: "resolve_props n w a names src env (set_prop h1 a name v) = Some (Inr h')"
        by (auto split: option.splits sum.splits)
      from 6(2) [OF Some] r1 have a: "heap_le h h1" by simp
      then obtain y where "get_prop h1 a name = Some y" using get_prop_heap_le Some by blast
      then have b: "heap_le h1 (set_prop h1 a name v)" by (rule set_prop_heap_le)
      from 6(3) [OF Some r1 refl refl] r2 have "heap_le (set_prop h1 a name v) h'" by simp
      with a b show ?thesis using heap_le_trans by blast
    qed
  qed
next
  case (7 w r env required h)
  then show ?case by simp
next
  case (8 n w r env required h)
  let ?body = "case parseSource w r False of Inl x \<Rightarrow> Inl x
            | Inr src \<Rightarrow>
                case Source_read w src of Inl x \<Rightarrow> Inl x
                | Inr text \<Rightarrow>
                    case JSON_parse w text of None \<Rightarrow> Inl SyntaxError
                    | Some data \<Rightarrow> Inr (src, data)"
  show ?case
  proof (intro allI impI)
    fix v h'
    assume res: "loadJSON (Suc n) w r env required h = Some (Inr (v, h'))"
    show "heap_le h h'"
    proof (cases ?body)
      case (Inl e)
      with res show ?thesis by (auto simp: heap_le_refl split: if_splits)
    next
      case (Inr b)
      obtain src data where b: "b = (src, data)" by (cases b)
      obtain val h0 where al: "alloc data h = (val, h0)" by (cases "alloc data h")
      from res Inr b al have r: "resolve n w val src env h0 = Some (Inr (v, h'))" by simp
      from 8 [OF refl Inr b [symmetric] al [symmetric]] r have "heap_le h0 h'" by simp
      with alloc_heap_le [OF al] show ?thesis using heap_le_trans by blast
    qed
  qed
qed

text \<open>
  What the resolver can reach. \<open>val_refs\<close> and \<open>cell_refs\<close> are the addresses a value
  and a cell refer to. \<open>region R h\<close>: the set \<open>R\<close> of addresses holds every address
  the store \<open>h\<close> does not have yet, and the cells of \<open>h\<close> at the addresses of \<open>R\<close>
  refer into \<open>R\<close> only. \<open>frame R h h'\<close>: the store \<open>h'\<close> has at least the cells of
  \<open>h\<close>, and every cell outside \<open>R\<close> is as it was.
\<close>

fun val_refs :: "jsval \<Rightarrow> addr set" where
  "val_refs (VRef a) = {a}"
| "val_refs v = {}"

fun cell_refs :: "cell \<Rightarrow> addr set" where
  "cell_refs (Array vs) = (\<Union>v \<in> set vs. val_refs v)"
| "cell_refs (Object ps) = (\<Union>p \<in> set ps. val_refs (snd p))"

definition region :: "addr set \<Rightarrow> heap \<Rightarrow> bool" where
  "region R h =
     ((\<forall>a. length h \<le> a \<longrightarrow> a \<in> R) \<and> (\<forall>a \<in> R. a < length h \<longrightarrow> cell_refs (h ! a) \<subseteq> R))"

definition frame :: "addr set \<Rightarrow> heap \<Rightarrow> heap \<Rightarrow> bool" where
  "frame R h h' = (length h \<le> length h' \<and> (\<forall>a. a \<notin> R \<longrightarrow> h' ! a = h ! a))"

lemma frame_refl: "frame R h h"
  by (simp add: frame_def)

lemma frame_trans: "frame R h1 h2 \<Longrightarrow> frame R h2 h3 \<Longrightarrow> frame R h1 h3"
  by (auto simp: frame_def)

lemma region_outside: "region R h \<Longrightarrow> a \<notin> R \<Longrightarrow> a < length h"
  by (meson region_def not_le)

lemma region_new: "region R h \<Longrightarrow> length h \<le> a \<Longrightarrow> a \<in> R"
  by (simp add: region_def)

lemma region_cell: "region R h \<Longrightarrow> a \<in> R \<Longrightarrow> lookup h a = Some c \<Longrightarrow> cell_refs c \<subseteq> R"
  by (auto simp: region_def lookup_def split: if_splits)

lemma region_append:
  assumes "region R h" and "\<forall>c \<in> set ext. cell_refs c \<subseteq> R"
  shows "region R (h @ ext) \<and> frame R h (h @ ext)"
proof -
  have "cell_refs ((h @ ext) ! a) \<subseteq> R" if "a \<in> R" "a < length (h @ ext)" for a
  proof (cases "a < length h")
    case True
    with assms(1) that show ?thesis by (simp add: region_def nth_append)
  next
    case False
    with that have "(h @ ext) ! a \<in> set ext" by (simp add: nth_append)
    with assms(2) show ?thesis by blast
  qed
  moreover have "(h @ ext) ! a = h ! a" if "a \<notin> R" for a
    using region_outside [OF assms(1) that] by (simp add: nth_append)
  ultimately show ?thesis
    using assms(1) by (simp add: region_def frame_def)
qed

lemma alloc_refs:
  "alloc data h = (v, h') \<Longrightarrow>
     val_refs v \<subseteq> {a. length h \<le> a}
     \<and> (\<exists>ext. h' = h @ ext \<and> (\<forall>c \<in> set ext. cell_refs c \<subseteq> {a. length h \<le> a}))"
  "alloc_items xs h = (vs, h') \<Longrightarrow>
     (\<forall>v \<in> set vs. val_refs v \<subseteq> {a. length h \<le> a})
     \<and> (\<exists>ext. h' = h @ ext \<and> (\<forall>c \<in> set ext. cell_refs c \<subseteq> {a. length h \<le> a}))"
  "alloc_props ps h = (qs, h') \<Longrightarrow>
     (\<forall>q \<in> set qs. val_refs (snd q) \<subseteq> {a. length h \<le> a})
     \<and> (\<exists>ext. h' = h @ ext \<and> (\<forall>c \<in> set ext. cell_refs c \<subseteq> {a. length h \<le> a}))"
proof (induction data h and xs h and ps h arbitrary: v h' and vs h' and qs h'
    rule: alloc_alloc_items_alloc_props.induct)
  case (5 xs h)
  obtain vs h1 where a: "alloc_items xs h = (vs, h1)" by (cases "alloc_items xs h")
  with 5(2) have v: "v = VRef (length h1)" and h': "h' = h1 @ [Array vs]" by auto
  from 5(1) [OF a] obtain ext where e: "h1 = h @ ext"
    "\<forall>c \<in> set ext. cell_refs c \<subseteq> {a. length h \<le> a}"
    "\<forall>v \<in> set vs. val_refs v \<subseteq> {a. length h \<le> a}" by blast
  from e(3) have "cell_refs (Array vs) \<subseteq> {a. length h \<le> a}" by auto
  with e(1,2) h' have "h' = h @ (ext @ [Array vs])
      \<and> (\<forall>c \<in> set (ext @ [Array vs]). cell_refs c \<subseteq> {a. length h \<le> a})" by auto
  moreover from v e(1) have "val_refs v \<subseteq> {a. length h \<le> a}" by simp
  ultimately show ?case by blast
next
  case (6 ps h)
  obtain qs h1 where a: "alloc_props ps h = (qs, h1)" by (cases "alloc_props ps h")
  with 6(2) have v: "v = VRef (length h1)" and h': "h' = h1 @ [Object qs]" by auto
  from 6(1) [OF a] obtain ext where e: "h1 = h @ ext"
    "\<forall>c \<in> set ext. cell_refs c \<subseteq> {a. length h \<le> a}"
    "\<forall>q \<in> set qs. val_refs (snd q) \<subseteq> {a. length h \<le> a}" by blast
  from e(3) have "cell_refs (Object qs) \<subseteq> {a. length h \<le> a}" by auto
  with e(1,2) h' have "h' = h @ (ext @ [Object qs])
      \<and> (\<forall>c \<in> set (ext @ [Object qs]). cell_refs c \<subseteq> {a. length h \<le> a})" by auto
  moreover from v e(1) have "val_refs v \<subseteq> {a. length h \<le> a}" by simp
  ultimately show ?case by blast
next
  case (8 x xs h)
  obtain v1 h1 where a: "alloc x h = (v1, h1)" by (cases "alloc x h")
  obtain vs1 h2 where b: "alloc_items xs h1 = (vs1, h2)" by (cases "alloc_items xs h1")
  from 8(3) a b have vs: "vs = v1 # vs1" and h': "h' = h2" by auto
  from 8(1) [OF a] obtain e1 where e1: "h1 = h @ e1"
    "\<forall>c \<in> set e1. cell_refs c \<subseteq> {a. length h \<le> a}" "val_refs v1 \<subseteq> {a. length h \<le> a}" by blast
  from 8(2) [OF a [symmetric] b] obtain e2 where e2: "h2 = h1 @ e2"
    "\<forall>c \<in> set e2. cell_refs c \<subseteq> {a. length h1 \<le> a}"
    "\<forall>v \<in> set vs1. val_refs v \<subseteq> {a. length h1 \<le> a}" by blast
  from e1(1) have le: "{a. length h1 \<le> a} \<subseteq> {a. length h \<le> a}" by auto
  from e2(2) le have e2': "\<forall>c \<in> set e2. cell_refs c \<subseteq> {a. length h \<le> a}" by blast
  from e2(3) le have e3': "\<forall>v \<in> set vs1. val_refs v \<subseteq> {a. length h \<le> a}" by blast
  from e1(1) e2(1) h' have "h' = h @ (e1 @ e2)" by simp
  moreover from e1(2) e2' have "\<forall>c \<in> set (e1 @ e2). cell_refs c \<subseteq> {a. length h \<le> a}"
    by (metis Un_iff set_append)
  moreover from vs e1(3) e3' have "\<forall>v \<in> set vs. val_refs v \<subseteq> {a. length h \<le> a}" by simp
  ultimately show ?case by blast
next
  case (10 k x ps h)
  obtain v1 h1 where a: "alloc x h = (v1, h1)" by (cases "alloc x h")
  obtain qs1 h2 where b: "alloc_props ps h1 = (qs1, h2)" by (cases "alloc_props ps h1")
  from 10(3) a b have qs: "qs = (k, v1) # qs1" and h': "h' = h2" by auto
  from 10(1) [OF a] obtain e1 where e1: "h1 = h @ e1"
    "\<forall>c \<in> set e1. cell_refs c \<subseteq> {a. length h \<le> a}" "val_refs v1 \<subseteq> {a. length h \<le> a}" by blast
  from 10(2) [OF a [symmetric] b] obtain e2 where e2: "h2 = h1 @ e2"
    "\<forall>c \<in> set e2. cell_refs c \<subseteq> {a. length h1 \<le> a}"
    "\<forall>q \<in> set qs1. val_refs (snd q) \<subseteq> {a. length h1 \<le> a}" by blast
  from e1(1) have le: "{a. length h1 \<le> a} \<subseteq> {a. length h \<le> a}" by auto
  from e2(2) le have e2': "\<forall>c \<in> set e2. cell_refs c \<subseteq> {a. length h \<le> a}" by blast
  from e2(3) le have e3': "\<forall>q \<in> set qs1. val_refs (snd q) \<subseteq> {a. length h \<le> a}" by blast
  from e1(1) e2(1) h' have "h' = h @ (e1 @ e2)" by simp
  moreover from e1(2) e2' have "\<forall>c \<in> set (e1 @ e2). cell_refs c \<subseteq> {a. length h \<le> a}"
    by (metis Un_iff set_append)
  moreover from qs e1(3) e3' have "\<forall>q \<in> set qs. val_refs (snd q) \<subseteq> {a. length h \<le> a}"
    by simp
  ultimately show ?case by blast
qed auto

lemma alloc_region:
  assumes "region R h" and "alloc data h = (v, h')"
  shows "region R h' \<and> frame R h h' \<and> val_refs v \<subseteq> R"
proof -
  from alloc_refs(1) [OF assms(2)] obtain ext where e: "h' = h @ ext"
    "\<forall>c \<in> set ext. cell_refs c \<subseteq> {a. length h \<le> a}" "val_refs v \<subseteq> {a. length h \<le> a}" by blast
  from assms(1) have up: "{a. length h \<le> a} \<subseteq> R" by (auto simp: region_def)
  with e(2) have "\<forall>c \<in> set ext. cell_refs c \<subseteq> R" by blast
  with region_append [OF assms(1)] e(1) have "region R h' \<and> frame R h h'" by blast
  with e(3) up show ?thesis by blast
qed

lemma cell_refs_update:
  "cell_refs (Object (if k \<in> fst ` set props
                         then map (\<lambda>(k', x). if k' = k then (k', v) else (k', x)) props
                         else props @ [(k, v)]))
     \<subseteq> cell_refs (Object props) \<union> val_refs v"
  by (induction props) (auto split: if_splits)

lemma set_prop_region:
  assumes "region R h" and "b \<in> R" and "val_refs v \<subseteq> R"
  shows "region R (set_prop h b k v) \<and> frame R h (set_prop h b k v)"
proof (cases "lookup h b")
  case None
  with assms(1) show ?thesis by (simp add: set_prop_def frame_refl)
next
  case (Some c)
  show ?thesis
  proof (cases c)
    case (Array xs)
    with Some assms(1) show ?thesis by (simp add: set_prop_def frame_refl)
  next
    case (Object props)
    let ?new = "Object (if k \<in> fst ` set props
                         then map (\<lambda>(k', x). if k' = k then (k', v) else (k', x)) props
                         else props @ [(k, v)])"
    from Some Object have b: "b < length h" "h ! b = Object props"
      by (auto simp: lookup_def split: if_splits)
    from assms(1,2) b(1) have "cell_refs (h ! b) \<subseteq> R" unfolding region_def by blast
    with b(2) have old: "cell_refs (Object props) \<subseteq> R" by simp
    with assms(3) have new: "cell_refs ?new \<subseteq> R"
      using cell_refs_update [of k props v] by blast
    have sp: "set_prop h b k v = h[b := ?new]" using Some Object by (simp add: set_prop_def)
    have "cell_refs (h[b := ?new] ! a) \<subseteq> R" if "a \<in> R" "a < length h" for a
      using that new assms(1) b(1) by (cases "a = b") (auto simp: region_def)
    moreover have "h[b := ?new] ! a = h ! a" if "a \<notin> R" for a
      using that assms(2) by (cases "a = b") auto
    ultimately show ?thesis
      using assms(1) unfolding sp by (simp add: region_def frame_def)
  qed
qed

text \<open>
  A fulfilled call of the resolver on a value that refers into a region reads and writes
  inside the region only: the cells outside are as they were, and the result refers into
  the region.
\<close>

lemma get_prop_refs:
  "region R h \<Longrightarrow> a \<in> R \<Longrightarrow> get_prop h a k = Some x \<Longrightarrow> val_refs x \<subseteq> R"
proof -
  assume r: "region R h" and a: "a \<in> R" and g: "get_prop h a k = Some x"
  from g obtain ps where l: "lookup h a = Some (Object ps)" and m: "map_of ps k = Some x"
    by (auto simp: get_prop_def split: option.splits cell.splits)
  from m have "(k, x) \<in> set ps" by (rule map_of_SomeD)
  then have "val_refs x \<subseteq> cell_refs (Object ps)" by force
  with region_cell [OF r a l] show ?thesis by blast
qed

lemma resolve_frame:
  "region R h \<longrightarrow> val_refs val \<subseteq> R \<longrightarrow>
     (\<forall>v h'. resolve n w val src env h = Some (Inr (v, h'))
        \<longrightarrow> region R h' \<and> frame R h h' \<and> val_refs v \<subseteq> R)"
  "region R h \<longrightarrow> (\<forall>i \<in> set items. val_refs i \<subseteq> R) \<longrightarrow>
     (\<forall>vs h'. resolve_items n w items src env h = Some (Inr (vs, h'))
        \<longrightarrow> region R h' \<and> frame R h h' \<and> (\<forall>v \<in> set vs. val_refs v \<subseteq> R))"
  "region R h \<longrightarrow> a \<in> R \<longrightarrow>
     (\<forall>h'. resolve_props n w a names src env h = Some (Inr h')
        \<longrightarrow> region R h' \<and> frame R h h')"
  "region R h \<longrightarrow>
     (\<forall>v h'. loadJSON n w r env required h = Some (Inr (v, h'))
        \<longrightarrow> region R h' \<and> frame R h h' \<and> val_refs v \<subseteq> R)"
proof (induction n w val src env h and n w items src env h and n w a names src env h
    and n w r env required h rule: resolve_resolve_items_resolve_props_loadJSON.induct)
  case (1 w val src env h)
  then show ?case by simp
next
  case (2 n w val src env h)
  show ?case
  proof (intro allI impI)
    fix v h'
    assume reg: "region R h" and refs: "val_refs val \<subseteq> R"
      and res: "resolve (Suc n) w val src env h = Some (Inr (v, h'))"
    show "region R h' \<and> frame R h h' \<and> val_refs v \<subseteq> R"
    proof (cases val)
      case (VString s)
      show ?thesis
      proof (cases "first_char_is s (CHR ''@'')")
        case True
        with res VString reg 2(1) show ?thesis by (simp add: Let_def)
      next
        case False
        with res VString reg show ?thesis by (auto simp: frame_refl)
      qed
    next
      case (VRef x)
      with refs have xR: "x \<in> R" by simp
      show ?thesis
      proof (cases "lookup h x")
        case None
        with res VRef show ?thesis by simp
      next
        case (Some c)
        from region_cell [OF reg xR Some] have cR: "cell_refs c \<subseteq> R" .
        show ?thesis
        proof (cases c)
          case (Array items)
          with res VRef Some obtain items' h1 where
            r: "resolve_items n w items src env h = Some (Inr (items', h1))"
            and v: "v = VRef (length h1)" and h': "h' = h1 @ [Array items']"
            by (auto split: option.splits sum.splits)
          from cR Array have "\<forall>i \<in> set items. val_refs i \<subseteq> R" by auto
          with 2(2) [OF VRef Some Array] reg r
          have a: "region R h1" "frame R h h1" "\<forall>v \<in> set items'. val_refs v \<subseteq> R" by blast+
          from a(3) have "\<forall>c \<in> set [Array items']. cell_refs c \<subseteq> R" by auto
          from region_append [OF a(1) this] h'
          have "region R h'" "frame R h1 h'" by simp_all
          moreover from v a(1) have "val_refs v \<subseteq> R" by (simp add: region_new)
          ultimately show ?thesis using a(2) frame_trans by blast
        next
          case (Object props)
          with res VRef Some have
            r: "resolve_props n w x (map fst props) src env h = Some (Inr h')" and v: "v = VRef x"
            by (auto split: option.splits sum.splits)
          from 2(3) [OF VRef Some Object] reg xR r v show ?thesis by simp
        qed
      qed
    qed (use res reg in \<open>auto simp: frame_refl\<close>)
  qed
next
  case (3 n w src env h)
  then show ?case by (simp add: frame_refl)
next
  case (4 n w i "is" src env h)
  show ?case
  proof (intro allI impI)
    fix vs h'
    assume reg: "region R h" and refs: "\<forall>i \<in> set (i # is). val_refs i \<subseteq> R"
      and res: "resolve_items n w (i # is) src env h = Some (Inr (vs, h'))"
    from res obtain v h1 vs' where r1: "resolve n w i src env h = Some (Inr (v, h1))"
      and r2: "resolve_items n w is src env h1 = Some (Inr (vs', h'))" and vs: "vs = v # vs'"
      by (auto split: option.splits sum.splits)
    from 4(1) reg refs r1 have a: "region R h1" "frame R h h1" "val_refs v \<subseteq> R" by simp_all
    from 4(3) [OF r1 refl refl] a(1) refs r2
    have b: "region R h'" "frame R h1 h'" "\<forall>v \<in> set vs'. val_refs v \<subseteq> R" by simp_all
    from a b vs show "region R h' \<and> frame R h h' \<and> (\<forall>v \<in> set vs. val_refs v \<subseteq> R)"
      using frame_trans by auto
  qed
next
  case (5 n w a src env h)
  then show ?case by (simp add: frame_refl)
next
  case (6 n w a name names src env h)
  show ?case
  proof (intro allI impI)
    fix h'
    assume reg: "region R h" and aR: "a \<in> R"
      and res: "resolve_props n w a (name # names) src env h = Some (Inr h')"
    show "region R h' \<and> frame R h h'"
    proof (cases "get_prop h a name")
      case None
      with res 6(1) reg aR show ?thesis by simp
    next
      case (Some x)
      with res obtain v h1 where r1: "resolve n w x src env h = Some (Inr (v, h1))"
        and r2: "resolve_props n w a names src env (set_prop h1 a name v) = Some (Inr h')"
        by (auto split: option.splits sum.splits)
      from get_prop_refs [OF reg aR Some] have "val_refs x \<subseteq> R" .
      with 6(2) [OF Some] reg r1 have a: "region R h1" "frame R h h1" "val_refs v \<subseteq> R"
        by simp_all
      from set_prop_region [OF a(1) aR a(3)]
      have b: "region R (set_prop h1 a name v)" "frame R h1 (set_prop h1 a name v)" by simp_all
      from 6(3) [OF Some r1 refl refl] b(1) aR r2
      have c: "region R h'" "frame R (set_prop h1 a name v) h'" by simp_all
      from a(2) b(2) c show ?thesis using frame_trans by blast
    qed
  qed
next
  case (7 w r env required h)
  then show ?case by simp
next
  case (8 n w r env required h)
  let ?body = "case parseSource w r False of Inl x \<Rightarrow> Inl x
            | Inr src \<Rightarrow>
                case Source_read w src of Inl x \<Rightarrow> Inl x
                | Inr text \<Rightarrow>
                    case JSON_parse w text of None \<Rightarrow> Inl SyntaxError
                    | Some data \<Rightarrow> Inr (src, data)"
  show ?case
  proof (intro allI impI)
    fix v h'
    assume reg: "region R h"
      and res: "loadJSON (Suc n) w r env required h = Some (Inr (v, h'))"
    show "region R h' \<and> frame R h h' \<and> val_refs v \<subseteq> R"
    proof (cases ?body)
      case (Inl e)
      with res reg show ?thesis by (auto simp: frame_refl split: if_splits)
    next
      case (Inr b)
      obtain src data where b: "b = (src, data)" by (cases b)
      obtain val h0 where al: "alloc data h = (val, h0)" by (cases "alloc data h")
      from res Inr b al have r: "resolve n w val src env h0 = Some (Inr (v, h'))" by simp
      from alloc_region [OF reg al] have a: "region R h0" "frame R h h0" "val_refs val \<subseteq> R"
        by simp_all
      from 8 [OF refl Inr b [symmetric] al [symmetric]] a(1,3) r
      have "region R h'" "frame R h0 h'" "val_refs v \<subseteq> R" by simp_all
      with a(2) show ?thesis using frame_trans by blast
    qed
  qed
qed

text \<open>
  What a call does inside a region does not depend on a cell outside: with another cell
  at an address outside the region the call has the same outcome, the other cell being at
  that address of the store it leaves (\<open>with_cell\<close>).
\<close>

lemma alloc_length_only:
  "alloc data h = (v, h') \<Longrightarrow>
     \<exists>ext. h' = h @ ext \<and> (\<forall>g. length g = length h \<longrightarrow> alloc data g = (v, g @ ext))"
  "alloc_items xs h = (vs, h') \<Longrightarrow>
     \<exists>ext. h' = h @ ext \<and> (\<forall>g. length g = length h \<longrightarrow> alloc_items xs g = (vs, g @ ext))"
  "alloc_props ps h = (qs, h') \<Longrightarrow>
     \<exists>ext. h' = h @ ext \<and> (\<forall>g. length g = length h \<longrightarrow> alloc_props ps g = (qs, g @ ext))"
proof (induction data h and xs h and ps h arbitrary: v h' and vs h' and qs h'
    rule: alloc_alloc_items_alloc_props.induct)
  case (5 xs h)
  obtain vs h1 where a: "alloc_items xs h = (vs, h1)" by (cases "alloc_items xs h")
  with 5(2) have v: "v = VRef (length h1)" and h': "h' = h1 @ [Array vs]" by auto
  from 5(1) [OF a] obtain ext where e: "h1 = h @ ext"
    "\<forall>g. length g = length h \<longrightarrow> alloc_items xs g = (vs, g @ ext)" by blast
  have "h' = h @ (ext @ [Array vs])" using e(1) h' by simp
  moreover have "alloc (JArray xs) g = (v, g @ (ext @ [Array vs]))" if "length g = length h" for g
    using e that v by simp
  ultimately show ?case by blast
next
  case (6 ps h)
  obtain qs h1 where a: "alloc_props ps h = (qs, h1)" by (cases "alloc_props ps h")
  with 6(2) have v: "v = VRef (length h1)" and h': "h' = h1 @ [Object qs]" by auto
  from 6(1) [OF a] obtain ext where e: "h1 = h @ ext"
    "\<forall>g. length g = length h \<longrightarrow> alloc_props ps g = (qs, g @ ext)" by blast
  have "h' = h @ (ext @ [Object qs])" using e(1) h' by simp
  moreover have "alloc (JObject ps) g = (v, g @ (ext @ [Object qs]))" if "length g = length h" for g
    using e that v by simp
  ultimately show ?case by blast
next
  case (8 x xs h)
  obtain v1 h1 where a: "alloc x h = (v1, h1)" by (cases "alloc x h")
  obtain vs1 h2 where b: "alloc_items xs h1 = (vs1, h2)" by (cases "alloc_items xs h1")
  from 8(3) a b have vs: "vs = v1 # vs1" and h': "h' = h2" by auto
  from 8(1) [OF a] obtain e1 where e1: "h1 = h @ e1"
    "\<forall>g. length g = length h \<longrightarrow> alloc x g = (v1, g @ e1)" by blast
  from 8(2) [OF a [symmetric] b] obtain e2 where e2: "h2 = h1 @ e2"
    "\<forall>g. length g = length h1 \<longrightarrow> alloc_items xs g = (vs1, g @ e2)" by blast
  have "h' = h @ (e1 @ e2)" using e1(1) e2(1) h' by simp
  moreover have "alloc_items (x # xs) g = (vs, g @ (e1 @ e2))" if "length g = length h" for g
  proof -
    from that e1(2) have "alloc x g = (v1, g @ e1)" by simp
    moreover from that e1(1) e2(2) have "alloc_items xs (g @ e1) = (vs1, (g @ e1) @ e2)" by simp
    ultimately show ?thesis using vs by simp
  qed
  ultimately show ?case by blast
next
  case (10 k x ps h)
  obtain v1 h1 where a: "alloc x h = (v1, h1)" by (cases "alloc x h")
  obtain qs1 h2 where b: "alloc_props ps h1 = (qs1, h2)" by (cases "alloc_props ps h1")
  from 10(3) a b have qs: "qs = (k, v1) # qs1" and h': "h' = h2" by auto
  from 10(1) [OF a] obtain e1 where e1: "h1 = h @ e1"
    "\<forall>g. length g = length h \<longrightarrow> alloc x g = (v1, g @ e1)" by blast
  from 10(2) [OF a [symmetric] b] obtain e2 where e2: "h2 = h1 @ e2"
    "\<forall>g. length g = length h1 \<longrightarrow> alloc_props ps g = (qs1, g @ e2)" by blast
  have "h' = h @ (e1 @ e2)" using e1(1) e2(1) h' by simp
  moreover have "alloc_props ((k, x) # ps) g = (qs, g @ (e1 @ e2))" if "length g = length h" for g
  proof -
    from that e1(2) have "alloc x g = (v1, g @ e1)" by simp
    moreover from that e1(1) e2(2) have "alloc_props ps (g @ e1) = (qs1, (g @ e1) @ e2)" by simp
    ultimately show ?thesis using qs by simp
  qed
  ultimately show ?case by blast
qed auto

lemma alloc_update:
  assumes "b < length h" and "alloc data h = (v, h')"
  shows "alloc data (h[b := c]) = (v, h'[b := c])"
proof -
  from alloc_length_only(1) [OF assms(2)] obtain ext where e: "h' = h @ ext"
    "\<forall>g. length g = length h \<longrightarrow> alloc data g = (v, g @ ext)" by blast
  from e(2) have "alloc data (h[b := c]) = (v, h[b := c] @ ext)" by simp
  with e(1) assms(1) show ?thesis by (simp add: list_update_append1)
qed

fun with_cell :: "addr \<Rightarrow> cell \<Rightarrow> ('x \<times> heap) outcome \<Rightarrow> ('x \<times> heap) outcome" where
  "with_cell b c None = None"
| "with_cell b c (Some (Inl es)) = Some (Inl es)"
| "with_cell b c (Some (Inr (v, h))) = Some (Inr (v, h[b := c]))"

fun with_cell_heap :: "addr \<Rightarrow> cell \<Rightarrow> heap outcome \<Rightarrow> heap outcome" where
  "with_cell_heap b c None = None"
| "with_cell_heap b c (Some (Inl es)) = Some (Inl es)"
| "with_cell_heap b c (Some (Inr h)) = Some (Inr (h[b := c]))"

lemma lookup_update_other: "a \<noteq> b \<Longrightarrow> lookup (h[b := c]) a = lookup h a"
  by (simp add: lookup_def)

lemma get_prop_update_other: "a \<noteq> b \<Longrightarrow> get_prop (h[b := c]) a k = get_prop h a k"
  by (simp add: get_prop_def lookup_update_other)

lemma set_prop_update_other:
  "a \<noteq> b \<Longrightarrow> set_prop (h[b := c]) a k v = (set_prop h a k v)[b := c]"
  by (auto simp: set_prop_def lookup_update_other list_update_swap
      split: option.splits cell.splits)

lemma resolve_local:
  assumes bR: "b \<notin> R"
  shows
  "region R h \<longrightarrow> val_refs val \<subseteq> R \<longrightarrow>
     resolve n w val src env (h[b := c]) = with_cell b c (resolve n w val src env h)"
  "region R h \<longrightarrow> (\<forall>i \<in> set items. val_refs i \<subseteq> R) \<longrightarrow>
     resolve_items n w items src env (h[b := c]) = with_cell b c (resolve_items n w items src env h)"
  "region R h \<longrightarrow> a \<in> R \<longrightarrow>
     resolve_props n w a names src env (h[b := c])
       = with_cell_heap b c (resolve_props n w a names src env h)"
  "region R h \<longrightarrow>
     loadJSON n w r env required (h[b := c]) = with_cell b c (loadJSON n w r env required h)"
proof (induction n w val src env h and n w items src env h and n w a names src env h
    and n w r env required h rule: resolve_resolve_items_resolve_props_loadJSON.induct)
  case (1 w val src env h)
  then show ?case by simp
next
  case (2 n w val src env h)
  show ?case
  proof (intro impI)
    assume reg: "region R h" and refs: "val_refs val \<subseteq> R"
    show "resolve (Suc n) w val src env (h[b := c]) = with_cell b c (resolve (Suc n) w val src env h)"
    proof (cases val)
      case (VString s)
      show ?thesis
      proof (cases "first_char_is s (CHR ''@'')")
        case True
        with VString reg 2(1) show ?thesis by (simp add: Let_def)
      next
        case False
        with VString show ?thesis by simp
      qed
    next
      case (VRef x)
      with refs have xR: "x \<in> R" by simp
      with bR have xb: "x \<noteq> b" by blast
      then have lk: "lookup (h[b := c]) x = lookup h x" by (rule lookup_update_other)
      show ?thesis
      proof (cases "lookup h x")
        case None
        with VRef lk show ?thesis by simp
      next
        case (Some cl)
        from region_cell [OF reg xR Some] have cR: "cell_refs cl \<subseteq> R" .
        show ?thesis
        proof (cases cl)
          case (Array items)
          from cR Array have ir: "\<forall>i \<in> set items. val_refs i \<subseteq> R" by auto
          with 2(2) [OF VRef Some Array] reg
          have eq: "resolve_items n w items src env (h[b := c])
              = with_cell b c (resolve_items n w items src env h)" by simp
          show ?thesis
          proof (cases "resolve_items n w items src env h")
            case None
            with VRef Some Array lk eq show ?thesis by simp
          next
            case (Some out)
            note so = this
            show ?thesis
            proof (cases out)
              case (Inl es)
              with VRef \<open>lookup h x = Some cl\<close> Array lk eq so show ?thesis by simp
            next
              case (Inr p)
              obtain vs h1 where p: "p = (vs, h1)" by (cases p)
              from resolve_frame(2) [of R h items n w src env] reg ir so Inr p
              have "region R h1" by simp
              with bR have "b < length h1" using region_outside by blast
              with VRef \<open>lookup h x = Some cl\<close> Array lk eq so Inr p show ?thesis
                by (simp add: list_update_append1)
            qed
          qed
        next
          case (Object props)
          from 2(3) [OF VRef Some Object] reg xR
          have eq: "resolve_props n w x (map fst props) src env (h[b := c])
              = with_cell_heap b c (resolve_props n w x (map fst props) src env h)" by simp
          show ?thesis
          proof (cases "resolve_props n w x (map fst props) src env h")
            case None
            with VRef Some Object lk eq show ?thesis by simp
          next
            case (Some out)
            with VRef \<open>lookup h x = Some cl\<close> Object lk eq show ?thesis
              by (cases out) simp_all
          qed
        qed
      qed
    qed simp_all
  qed
next
  case (3 n w src env h)
  then show ?case by simp
next
  case (4 n w i "is" src env h)
  show ?case
  proof (intro impI)
    assume reg: "region R h" and refs: "\<forall>i \<in> set (i # is). val_refs i \<subseteq> R"
    from 4(1) reg refs
    have e1: "resolve n w i src env (h[b := c]) = with_cell b c (resolve n w i src env h)" by simp
    show "resolve_items n w (i # is) src env (h[b := c])
        = with_cell b c (resolve_items n w (i # is) src env h)"
    proof (cases "resolve n w i src env h")
      case None
      with e1 show ?thesis by simp
    next
      case (Some out)
      show ?thesis
      proof (cases out)
        case (Inl es)
        from 4(2) [OF Some Inl] reg refs
        have e2: "resolve_items n w is src env (h[b := c])
            = with_cell b c (resolve_items n w is src env h)" by simp
        show ?thesis
        proof (cases "resolve_items n w is src env h")
          case None
          with Some Inl e1 e2 show ?thesis by simp
        next
          case (Some out2)
          with \<open>resolve n w i src env h = Some out\<close> Inl e1 e2 show ?thesis
            by (cases out2) (auto split: prod.splits)
        qed
      next
        case (Inr p)
        obtain v h1 where p: "p = (v, h1)" by (cases p)
        from resolve_frame(1) [of R h i n w src env] reg refs Some Inr p
        have r1: "region R h1" by simp
        from 4(3) [OF Some Inr p [symmetric]] r1 refs
        have e2: "resolve_items n w is src env (h1[b := c])
            = with_cell b c (resolve_items n w is src env h1)" by simp
        show ?thesis
        proof (cases "resolve_items n w is src env h1")
          case None
          with Some Inr p e1 e2 show ?thesis by simp
        next
          case (Some out2)
          with \<open>resolve n w i src env h = Some out\<close> Inr p e1 e2 show ?thesis
            by (cases out2) (auto split: prod.splits)
        qed
      qed
    qed
  qed
next
  case (5 n w a src env h)
  then show ?case by simp
next
  case (6 n w a name names src env h)
  show ?case
  proof (intro impI)
    assume reg: "region R h" and aR: "a \<in> R"
    from aR bR have ab: "a \<noteq> b" by blast
    then have gp: "get_prop (h[b := c]) a name = get_prop h a name"
      by (rule get_prop_update_other)
    show "resolve_props n w a (name # names) src env (h[b := c])
        = with_cell_heap b c (resolve_props n w a (name # names) src env h)"
    proof (cases "get_prop h a name")
      case None
      with 6(1) reg aR gp show ?thesis by simp
    next
      case (Some x)
      from get_prop_refs [OF reg aR Some] have xr: "val_refs x \<subseteq> R" .
      with 6(2) [OF Some] reg
      have e1: "resolve n w x src env (h[b := c]) = with_cell b c (resolve n w x src env h)" by simp
      show ?thesis
      proof (cases "resolve n w x src env h")
        case None
        with Some gp e1 show ?thesis by simp
      next
        case (Some out)
        note so = this
        show ?thesis
        proof (cases out)
          case (Inl es)
          with \<open>get_prop h a name = Some x\<close> gp e1 so show ?thesis by simp
        next
          case (Inr p)
          obtain v h1 where p: "p = (v, h1)" by (cases p)
          from resolve_frame(1) [of R h x n w src env] reg xr so Inr p
          have r1: "region R h1" "val_refs v \<subseteq> R" by simp_all
          from set_prop_region [OF r1(1) aR r1(2)]
          have r2: "region R (set_prop h1 a name v)" by simp
          from 6(3) [OF \<open>get_prop h a name = Some x\<close> so Inr p [symmetric]] r2 aR
          have e2: "resolve_props n w a names src env ((set_prop h1 a name v)[b := c])
              = with_cell_heap b c (resolve_props n w a names src env (set_prop h1 a name v))"
            by simp
          from ab have sp: "set_prop (h1[b := c]) a name v = (set_prop h1 a name v)[b := c]"
            by (rule set_prop_update_other)
          from \<open>get_prop h a name = Some x\<close> gp e1 so Inr p e2 sp show ?thesis by simp
        qed
      qed
    qed
  qed
next
  case (7 w r env required h)
  then show ?case by simp
next
  case (8 n w r env required h)
  let ?body = "case parseSource w r False of Inl x \<Rightarrow> Inl x
            | Inr src \<Rightarrow>
                case Source_read w src of Inl x \<Rightarrow> Inl x
                | Inr text \<Rightarrow>
                    case JSON_parse w text of None \<Rightarrow> Inl SyntaxError
                    | Some data \<Rightarrow> Inr (src, data)"
  show ?case
  proof (intro impI)
    assume reg: "region R h"
    from bR reg have bl: "b < length h" using region_outside by blast
    show "loadJSON (Suc n) w r env required (h[b := c])
        = with_cell b c (loadJSON (Suc n) w r env required h)"
    proof (cases ?body)
      case (Inl e)
      then show ?thesis by simp
    next
      case (Inr p)
      obtain src data where p: "p = (src, data)" by (cases p)
      obtain val h0 where al: "alloc data h = (val, h0)" by (cases "alloc data h")
      from alloc_update [OF bl al] have al': "alloc data (h[b := c]) = (val, h0[b := c])" .
      from alloc_region [OF reg al] have a: "region R h0" "val_refs val \<subseteq> R" by simp_all
      from 8 [OF refl Inr p [symmetric] al [symmetric]] a
      have "resolve n w val src env (h0[b := c]) = with_cell b c (resolve n w val src env h0)"
        by simp
      with Inr p al al' show ?thesis by simp
    qed
  qed
qed

text \<open>
  \<open>resolve_each\<close> resolves the values of a list one after the other, each in the store
  the one before it left, and stops at the first that is not fulfilled: the resolved
  values of the properties of an object, in the order of the loop
  \<^verbatim>\<open>for( let name in value )\<close>, and the resolved items of an array whose items are all
  fulfilled.
\<close>

fun resolve_each ::
  "nat \<Rightarrow> world \<Rightarrow> jsval list \<Rightarrow> source \<Rightarrow> env \<Rightarrow> heap \<Rightarrow> (jsval list \<times> heap) outcome" where
  "resolve_each n w [] src env h = Some (Inr ([], h))"
| "resolve_each n w (x # xs) src env h =
     (case resolve n w x src env h of
        None \<Rightarrow> None
      | Some (Inl es) \<Rightarrow> Some (Inl es)
      | Some (Inr (v, h1)) \<Rightarrow>
          (case resolve_each n w xs src env h1 of
             None \<Rightarrow> None
           | Some (Inl es) \<Rightarrow> Some (Inl es)
           | Some (Inr (vs, h2)) \<Rightarrow> Some (Inr (v # vs, h2))))"

lemma resolve_items_fulfilled:
  "resolve_items n w items src env h = Some (Inr x) \<longleftrightarrow> resolve_each n w items src env h = Some (Inr x)"
proof (induction items arbitrary: h x)
  case Nil
  then show ?case by simp
next
  case (Cons i items)
  show ?case
  proof (cases "resolve n w i src env h")
    case None
    then show ?thesis by simp
  next
    case (Some out)
    show ?thesis
    proof (cases out)
      case (Inl es)
      with Some show ?thesis by (simp split: option.splits sum.splits)
    next
      case (Inr p)
      obtain v h1 where p: "p = (v, h1)" by (cases p)
      show ?thesis
      proof (cases "resolve_items n w items src env h1")
        case None
        with Cons.IH [of h1] have "resolve_each n w items src env h1 \<noteq> Some (Inr y)" for y
          by simp
        with Some Inr p None show ?thesis by (auto split: option.splits sum.splits)
      next
        case (Some out2)
        note s2 = this
        show ?thesis
        proof (cases out2)
          case (Inl es)
          with s2 Cons.IH [of h1] have "resolve_each n w items src env h1 \<noteq> Some (Inr y)" for y
            by simp
          with \<open>resolve n w i src env h = Some out\<close> Inr p s2 Inl show ?thesis
            by (auto split: option.splits sum.splits)
        next
          case (Inr q)
          with s2 Cons.IH [of h1 q] have "resolve_each n w items src env h1 = Some (Inr q)" by simp
          with \<open>resolve n w i src env h = Some out\<close> \<open>out = Inr p\<close> p s2 Inr show ?thesis
            by (auto split: prod.splits)
        qed
      qed
    qed
  qed
qed

lemma resolve_each_frame:
  "region R h \<Longrightarrow> \<forall>x \<in> set xs. val_refs x \<subseteq> R \<Longrightarrow>
   resolve_each n w xs src env h = Some (Inr (vs, h')) \<Longrightarrow>
     region R h' \<and> frame R h h' \<and> length vs = length xs"
proof (induction xs arbitrary: h vs)
  case Nil
  then show ?case by (simp add: frame_refl)
next
  case (Cons x xs)
  from Cons.prems(3) obtain v h1 vs' where r1: "resolve n w x src env h = Some (Inr (v, h1))"
    and r2: "resolve_each n w xs src env h1 = Some (Inr (vs', h'))" and vs: "vs = v # vs'"
    by (auto split: option.splits sum.splits)
  from resolve_frame(1) [of R h x n w src env] Cons.prems(1,2) r1
  have a: "region R h1" "frame R h h1" by simp_all
  from Cons.IH [OF a(1) _ r2] Cons.prems(2)
  have b: "region R h'" "frame R h1 h'" "length vs' = length xs" by simp_all
  with a vs show ?case using frame_trans by auto
qed

lemma resolve_each_local:
  "b \<notin> R \<Longrightarrow> region R h \<Longrightarrow> \<forall>x \<in> set xs. val_refs x \<subseteq> R \<Longrightarrow>
   resolve_each n w xs src env (h[b := c]) = with_cell b c (resolve_each n w xs src env h)"
proof (induction xs arbitrary: h)
  case Nil
  then show ?case by simp
next
  case (Cons x xs)
  from resolve_local(1) [OF Cons.prems(1), of h x n w src env c] Cons.prems(2,3)
  have e1: "resolve n w x src env (h[b := c]) = with_cell b c (resolve n w x src env h)" by simp
  show ?case
  proof (cases "resolve n w x src env h")
    case None
    with e1 show ?thesis by simp
  next
    case (Some out)
    show ?thesis
    proof (cases out)
      case (Inl es)
      with Some e1 show ?thesis by simp
    next
      case (Inr p)
      obtain v h1 where p: "p = (v, h1)" by (cases p)
      from resolve_frame(1) [of R h x n w src env] Cons.prems(2,3) Some Inr p
      have r1: "region R h1" by simp
      from Cons.IH [OF Cons.prems(1) r1] Cons.prems(3)
      have e2: "resolve_each n w xs src env (h1[b := c])
          = with_cell b c (resolve_each n w xs src env h1)" by simp
      show ?thesis
      proof (cases "resolve_each n w xs src env h1")
        case None
        with Some Inr p e1 e2 show ?thesis by simp
      next
        case (Some out2)
        with \<open>resolve n w x src env h = Some out\<close> Inr p e1 e2 show ?thesis
          by (cases out2) (auto split: prod.splits)
      qed
    qed
  qed
qed

lemma region_update_outside:
  assumes "region R h" and "b \<notin> R"
  shows "region R (h[b := c])"
proof -
  have "h[b := c] ! a = h ! a" if "a \<in> R" for a
    using that assms(2) by (cases "a = b") simp_all
  with assms(1) show ?thesis by (simp add: region_def)
qed

lemma set_prop_distinct:
  assumes "lookup h a = Some (Object (pre @ (k, x) # rest))"
    and "distinct (map fst (pre @ (k, x) # rest))"
  shows "get_prop h a k = Some x"
    and "set_prop h a k v = h[a := Object (pre @ (k, v) # rest)]"
proof -
  from assms(2) have kp: "k \<notin> fst ` set pre" and kr: "k \<notin> fst ` set rest" by auto
  from kp have mp: "map_of pre k = None" by (simp add: map_of_eq_None_iff)
  then show "get_prop h a k = Some x"
    using assms(1) by (simp add: get_prop_def map_add_def)
  have m1: "map (\<lambda>(k', y). if k' = k then (k', v) else (k', y)) ps = ps" if "k \<notin> fst ` set ps" for ps
    using that by (induction ps) auto
  have "map (\<lambda>(k', y). if k' = k then (k', v) else (k', y)) (pre @ (k, x) # rest)
      = pre @ (k, v) # rest"
    using m1 [OF kp] m1 [OF kr] by simp
  then show "set_prop h a k v = h[a := Object (pre @ (k, v) # rest)]"
    using assms(1) by (simp add: set_prop_def)
qed

lemma resolve_props_in_place:
  assumes "a \<notin> R"
  shows "region R h \<Longrightarrow> lookup h a = Some (Object (pre @ rest)) \<Longrightarrow>
     distinct (map fst (pre @ rest)) \<Longrightarrow> \<forall>p \<in> set rest. val_refs (snd p) \<subseteq> R \<Longrightarrow>
     resolve_props n w a (map fst rest) src env h =
       (case resolve_each n w (map snd rest) src env h of
          None \<Rightarrow> None
        | Some (Inl es) \<Rightarrow> Some (Inl es)
        | Some (Inr (vs, h1)) \<Rightarrow> Some (Inr (h1[a := Object (pre @ zip (map fst rest) vs)])))"
proof (induction rest arbitrary: pre h)
  case Nil
  from Nil.prems(2) have "a < length h" "h ! a = Object pre"
    by (auto simp: lookup_def split: if_splits)
  then have "h[a := Object pre] = h"
    using list_update_id [of h a] by simp
  then show ?case by simp
next
  case (Cons p rest)
  obtain k x where p: "p = (k, x)" by (cases p)
  note lk = Cons.prems(2) [unfolded p]
  note di = Cons.prems(3) [unfolded p]
  from set_prop_distinct(1) [OF lk di] have gp: "get_prop h a k = Some x" .
  from Cons.prems(4) p have xr: "val_refs x \<subseteq> R" by simp
  show ?case
  proof (cases "resolve n w x src env h")
    case None
    with gp p show ?thesis by simp
  next
    case (Some out)
    show ?thesis
    proof (cases out)
      case (Inl es)
      with Some gp p show ?thesis by simp
    next
      case (Inr q)
      obtain v h1 where q: "q = (v, h1)" by (cases q)
      from resolve_frame(1) [of R h x n w src env] Cons.prems(1) xr Some Inr q
      have r1: "region R h1" "frame R h h1" by simp_all
      from lk have al: "a < length h" "h ! a = Object (pre @ (k, x) # rest)"
        by (auto simp: lookup_def split: if_splits)
      from r1(2) assms al have lk1: "lookup h1 a = Some (Object (pre @ (k, x) # rest))"
        by (auto simp: frame_def lookup_def)
      let ?c2 = "Object (pre @ (k, v) # rest)"
      from set_prop_distinct(2) [OF lk1 di] have sp: "set_prop h1 a k v = h1[a := ?c2]" .
      from lk1 have a1: "a < length h1" by (auto simp: lookup_def split: if_splits)
      have r2: "region R (h1[a := ?c2])" using r1(1) assms by (rule region_update_outside)
      have lk2: "lookup (h1[a := ?c2]) a = Some (Object ((pre @ [(k, v)]) @ rest))"
        using a1 by (simp add: lookup_def)
      from di have di2: "distinct (map fst ((pre @ [(k, v)]) @ rest))" by simp
      from Cons.prems(4) have rr: "\<forall>p \<in> set rest. val_refs (snd p) \<subseteq> R" by simp
      from Cons.IH [OF r2 lk2 di2 rr]
      have ih: "resolve_props n w a (map fst rest) src env (h1[a := ?c2]) =
        (case resolve_each n w (map snd rest) src env (h1[a := ?c2]) of
          None \<Rightarrow> None
        | Some (Inl es) \<Rightarrow> Some (Inl es)
        | Some (Inr (vs, h3)) \<Rightarrow>
            Some (Inr (h3[a := Object ((pre @ [(k, v)]) @ zip (map fst rest) vs)])))" .
      from rr have rr': "\<forall>y \<in> set (map snd rest). val_refs y \<subseteq> R" by simp
      from resolve_each_local [OF assms r1(1) rr', of n w src env ?c2]
      have lo: "resolve_each n w (map snd rest) src env (h1[a := ?c2])
          = with_cell a ?c2 (resolve_each n w (map snd rest) src env h1)" .
      show ?thesis
      proof (cases "resolve_each n w (map snd rest) src env h1")
        case None
        with Some Inr q gp p sp ih lo show ?thesis by simp
      next
        case (Some out2)
        with \<open>resolve n w x src env h = Some out\<close> Inr q gp p sp ih lo show ?thesis
          by (cases out2) (auto split: prod.splits)
      qed
    qed
  qed
qed

text \<open>
  An object that \<^verbatim>\<open>JSON.parse\<close> has just built is outside a region that holds the
  cells of its property values: the cells of a parsed document refer to cells built before
  them only.
\<close>

lemma alloc_bound:
  "alloc data h = (v, h') \<Longrightarrow>
     val_refs v \<subseteq> {a. a < length h'}
     \<and> (\<exists>ext. h' = h @ ext \<and> (\<forall>c \<in> set ext. cell_refs c \<subseteq> {a. a < length h'}))"
  "alloc_items xs h = (vs, h') \<Longrightarrow>
     (\<forall>v \<in> set vs. val_refs v \<subseteq> {a. a < length h'})
     \<and> (\<exists>ext. h' = h @ ext \<and> (\<forall>c \<in> set ext. cell_refs c \<subseteq> {a. a < length h'}))"
  "alloc_props ps h = (qs, h') \<Longrightarrow>
     (\<forall>q \<in> set qs. val_refs (snd q) \<subseteq> {a. a < length h'})
     \<and> (\<exists>ext. h' = h @ ext \<and> (\<forall>c \<in> set ext. cell_refs c \<subseteq> {a. a < length h'}))"
proof (induction data h and xs h and ps h arbitrary: v h' and vs h' and qs h'
    rule: alloc_alloc_items_alloc_props.induct)
  case (5 xs h)
  obtain vs h1 where a: "alloc_items xs h = (vs, h1)" by (cases "alloc_items xs h")
  with 5(2) have v: "v = VRef (length h1)" and h': "h' = h1 @ [Array vs]" by auto
  from 5(1) [OF a] obtain ext where e: "h1 = h @ ext"
    "\<forall>c \<in> set ext. cell_refs c \<subseteq> {a. a < length h1}"
    "\<forall>v \<in> set vs. val_refs v \<subseteq> {a. a < length h1}" by blast
  from h' have le: "{a. a < length h1} \<subseteq> {a. a < length h'}" by auto
  from e(3) have "cell_refs (Array vs) \<subseteq> {a. a < length h1}" by auto
  with le have c: "cell_refs (Array vs) \<subseteq> {a. a < length h'}" by blast
  from e(2) le have e2': "\<forall>c \<in> set ext. cell_refs c \<subseteq> {a. a < length h'}" by blast
  from e(1) h' have "h' = h @ (ext @ [Array vs])" by simp
  moreover from e2' c have "\<forall>c \<in> set (ext @ [Array vs]). cell_refs c \<subseteq> {a. a < length h'}"
    by simp
  moreover from v h' have "val_refs v \<subseteq> {a. a < length h'}" by simp
  ultimately show ?case by blast
next
  case (6 ps h)
  obtain qs h1 where a: "alloc_props ps h = (qs, h1)" by (cases "alloc_props ps h")
  with 6(2) have v: "v = VRef (length h1)" and h': "h' = h1 @ [Object qs]" by auto
  from 6(1) [OF a] obtain ext where e: "h1 = h @ ext"
    "\<forall>c \<in> set ext. cell_refs c \<subseteq> {a. a < length h1}"
    "\<forall>q \<in> set qs. val_refs (snd q) \<subseteq> {a. a < length h1}" by blast
  from h' have le: "{a. a < length h1} \<subseteq> {a. a < length h'}" by auto
  from e(3) have "cell_refs (Object qs) \<subseteq> {a. a < length h1}" by auto
  with le have c: "cell_refs (Object qs) \<subseteq> {a. a < length h'}" by blast
  from e(2) le have e2': "\<forall>c \<in> set ext. cell_refs c \<subseteq> {a. a < length h'}" by blast
  from e(1) h' have "h' = h @ (ext @ [Object qs])" by simp
  moreover from e2' c have "\<forall>c \<in> set (ext @ [Object qs]). cell_refs c \<subseteq> {a. a < length h'}"
    by simp
  moreover from v h' have "val_refs v \<subseteq> {a. a < length h'}" by simp
  ultimately show ?case by blast
next
  case (8 x xs h)
  obtain v1 h1 where a: "alloc x h = (v1, h1)" by (cases "alloc x h")
  obtain vs1 h2 where b: "alloc_items xs h1 = (vs1, h2)" by (cases "alloc_items xs h1")
  from 8(3) a b have vs: "vs = v1 # vs1" and h': "h' = h2" by auto
  from 8(1) [OF a] obtain e1 where e1: "h1 = h @ e1"
    "\<forall>c \<in> set e1. cell_refs c \<subseteq> {a. a < length h1}" "val_refs v1 \<subseteq> {a. a < length h1}" by blast
  from 8(2) [OF a [symmetric] b] obtain e2 where e2: "h2 = h1 @ e2"
    "\<forall>c \<in> set e2. cell_refs c \<subseteq> {a. a < length h2}"
    "\<forall>v \<in> set vs1. val_refs v \<subseteq> {a. a < length h2}" by blast
  from e2(1) have le: "{a. a < length h1} \<subseteq> {a. a < length h2}" by auto
  from e1(2) le have e1': "\<forall>c \<in> set e1. cell_refs c \<subseteq> {a. a < length h2}" by blast
  from e1(3) le have e3': "val_refs v1 \<subseteq> {a. a < length h2}" by blast
  from e1(1) e2(1) h' have "h' = h @ (e1 @ e2)" by simp
  moreover from e1' e2(2) h' have "\<forall>c \<in> set (e1 @ e2). cell_refs c \<subseteq> {a. a < length h'}"
    by (metis Un_iff set_append)
  moreover from vs e2(3) e3' h' have "\<forall>v \<in> set vs. val_refs v \<subseteq> {a. a < length h'}" by simp
  ultimately show ?case by blast
next
  case (10 k x ps h)
  obtain v1 h1 where a: "alloc x h = (v1, h1)" by (cases "alloc x h")
  obtain qs1 h2 where b: "alloc_props ps h1 = (qs1, h2)" by (cases "alloc_props ps h1")
  from 10(3) a b have qs: "qs = (k, v1) # qs1" and h': "h' = h2" by auto
  from 10(1) [OF a] obtain e1 where e1: "h1 = h @ e1"
    "\<forall>c \<in> set e1. cell_refs c \<subseteq> {a. a < length h1}" "val_refs v1 \<subseteq> {a. a < length h1}" by blast
  from 10(2) [OF a [symmetric] b] obtain e2 where e2: "h2 = h1 @ e2"
    "\<forall>c \<in> set e2. cell_refs c \<subseteq> {a. a < length h2}"
    "\<forall>q \<in> set qs1. val_refs (snd q) \<subseteq> {a. a < length h2}" by blast
  from e2(1) have le: "{a. a < length h1} \<subseteq> {a. a < length h2}" by auto
  from e1(2) le have e1': "\<forall>c \<in> set e1. cell_refs c \<subseteq> {a. a < length h2}" by blast
  from e1(3) le have e3': "val_refs v1 \<subseteq> {a. a < length h2}" by blast
  from e1(1) e2(1) h' have "h' = h @ (e1 @ e2)" by simp
  moreover from e1' e2(2) h' have "\<forall>c \<in> set (e1 @ e2). cell_refs c \<subseteq> {a. a < length h'}"
    by (metis Un_iff set_append)
  moreover from qs e2(3) e3' h' have "\<forall>q \<in> set qs. val_refs (snd q) \<subseteq> {a. a < length h'}"
    by simp
  ultimately show ?case by blast
qed auto

lemma alloc_props_names: "alloc_props ps h = (qs, h') \<Longrightarrow> map fst qs = map fst ps"
proof (induction ps arbitrary: h qs h')
  case Nil
  then show ?case by simp
next
  case (Cons p ps)
  obtain k x where p: "p = (k, x)" by (cases p)
  obtain v1 h1 where a: "alloc x h = (v1, h1)" by (cases "alloc x h")
  obtain qs1 h2 where b: "alloc_props ps h1 = (qs1, h2)" by (cases "alloc_props ps h1")
  from Cons.prems p a b have "qs = (k, v1) # qs1" by auto
  with Cons.IH [OF b] p show ?case by simp
qed

lemma alloc_object_region:
  assumes "alloc (JObject kvs) h = (val, h0)"
  shows "\<exists>R a props. val = VRef a \<and> lookup h0 a = Some (Object props)
           \<and> map fst props = map fst kvs
           \<and> region R h0 \<and> a \<notin> R \<and> (\<forall>p \<in> set props. val_refs (snd p) \<subseteq> R)"
proof -
  obtain qs h1 where a: "alloc_props kvs h = (qs, h1)" by (cases "alloc_props kvs h")
  with assms have v: "val = VRef (length h1)" and h0: "h0 = h1 @ [Object qs]" by auto
  let ?R = "{b. length h \<le> b \<and> b \<noteq> length h1}"
  from alloc_refs(3) [OF a] obtain ext where e: "h1 = h @ ext"
    "\<forall>c \<in> set ext. cell_refs c \<subseteq> {a. length h \<le> a}"
    "\<forall>q \<in> set qs. val_refs (snd q) \<subseteq> {a. length h \<le> a}" by blast
  from alloc_bound(3) [OF a] obtain ext' where e': "h1 = h @ ext'"
    "\<forall>c \<in> set ext'. cell_refs c \<subseteq> {a. a < length h1}"
    "\<forall>q \<in> set qs. val_refs (snd q) \<subseteq> {a. a < length h1}" by blast
  from e(1) e'(1) have ee: "ext' = ext" by simp
  have vals: "\<forall>p \<in> set qs. val_refs (snd p) \<subseteq> ?R"
  proof
    fix p assume "p \<in> set qs"
    with e(3) e'(3) have "val_refs (snd p) \<subseteq> {a. length h \<le> a}"
      "val_refs (snd p) \<subseteq> {a. a < length h1}" by blast+
    then show "val_refs (snd p) \<subseteq> ?R" by auto
  qed
  have cells: "cell_refs (h0 ! b) \<subseteq> ?R" if "b \<in> ?R" "b < length h0" for b
  proof -
    from that h0 have b: "length h \<le> b" "b < length h1" by auto
    with e(1) have "h1 ! b = ext ! (b - length h)" "b - length h < length ext"
      by (auto simp: nth_append)
    then have "h1 ! b \<in> set ext" by simp
    with e(2) e'(2) ee have "cell_refs (h1 ! b) \<subseteq> {a. length h \<le> a}"
      "cell_refs (h1 ! b) \<subseteq> {a. a < length h1}" by blast+
    moreover from b h0 have "h0 ! b = h1 ! b" by (simp add: nth_append)
    ultimately show ?thesis by auto
  qed
  have "region ?R h0"
    unfolding region_def
  proof (intro conjI allI impI ballI)
    fix b assume "length h0 \<le> b"
    with h0 e(1) show "b \<in> ?R" by auto
  next
    fix b assume "b \<in> ?R" "b < length h0"
    then show "cell_refs (h0 ! b) \<subseteq> ?R" by (rule cells)
  qed
  moreover from h0 have "lookup h0 (length h1) = Some (Object qs)" by (simp add: lookup_def)
  moreover from alloc_props_names [OF a] have "map fst qs = map fst kvs" .
  moreover have "length h1 \<notin> ?R" by simp
  ultimately show ?thesis using v vals by blast
qed

lemma resolve_each_length:
  "resolve_each n w xs src env h = Some (Inr (vs, h')) \<Longrightarrow> length vs = length xs"
proof (induction xs arbitrary: h vs)
  case Nil
  then show ?case by simp
next
  case (Cons x xs)
  from Cons.prems obtain v h1 vs' where "resolve_each n w xs src env h1 = Some (Inr (vs', h'))"
    and "vs = v # vs'"
    by (auto split: option.splits sum.splits)
  with Cons.IH show ?case by auto
qed

text \<open>
  C9. A value that is neither a link nor an object or an array is returned as it is.
  The resolver returns for an object the reference it was given, and the object at
  that address is the one it had, each property value overwritten with its resolved value:
  when the names of the object are distinct and its property values do not refer back to
  the object (as in every document that \<^verbatim>\<open>JSON.parse\<close> returns, the second part of the
  theorem), the call is fulfilled exactly when the values are resolved one after the
  other, it returns the same reference, and the store it leaves is the store the
  resolutions left with, at that address, the object of the same names in the same order,
  each with the resolved value of its property. When a value is rejected or not
  determined, so is the call. In every store a fulfilled call returns the reference it got
  and leaves an object with the same names in the same order at that address. For an array
  the call is fulfilled exactly when its items are resolved one after the other; it
  returns a reference to a cell the store did not have before, which holds the resolved
  items, as many as the array has, and the array it was given is in the store unchanged.
  In the witness the document \<^verbatim>\<open>{"m":"@missing.json","l":["@n.json"]}\<close> is resolved:
  the object keeps its address and has its two values overwritten, the array of \<open>l\<close>
  is a new one.
\<close>

theorem resolve_object_in_place:
  "(x = VNull \<or> x = VBool b \<or> x = VNumber k \<or> (x = VString s \<and> \<not> first_char_is s (CHR ''@''))
      \<longrightarrow> resolve (Suc n) w x src env h = Some (Inr (x, h)))
   \<and> (lookup h a = Some (Object props) \<and> distinct (map fst props) \<and> region R h \<and> a \<notin> R
      \<and> (\<forall>p \<in> set props. val_refs (snd p) \<subseteq> R)
      \<longrightarrow> resolve (Suc n) w (VRef a) src env h =
            (case resolve_each n w (map snd props) src env h of
               None \<Rightarrow> None
             | Some (Inl es) \<Rightarrow> Some (Inl es)
             | Some (Inr (vs, h1)) \<Rightarrow>
                 Some (Inr (VRef a, h1[a := Object (zip (map fst props) vs)]))))
   \<and> (alloc (JObject kvs) hp = (val, h0) \<and> distinct (map fst kvs)
      \<longrightarrow> (\<exists>a props. val = VRef a \<and> lookup h0 a = Some (Object props)
            \<and> map fst props = map fst kvs
            \<and> resolve (Suc n) w val src env h0 =
                (case resolve_each n w (map snd props) src env h0 of
                   None \<Rightarrow> None
                 | Some (Inl es) \<Rightarrow> Some (Inl es)
                 | Some (Inr (vs, h1)) \<Rightarrow>
                     Some (Inr (VRef a, h1[a := Object (zip (map fst kvs) vs)])))))
   \<and> (resolve_each n w xs src env h = Some (Inr (vs, h1)) \<longrightarrow> length vs = length xs)
   \<and> (lookup h a = Some (Object props) \<and> resolve n w (VRef a) src env h = Some (Inr (v, h'))
      \<longrightarrow> v = VRef a
          \<and> (\<exists>props'. lookup h' a = Some (Object props') \<and> map fst props' = map fst props))
   \<and> (lookup h a = Some (Array items)
      \<longrightarrow> (resolve (Suc n) w (VRef a) src env h = Some (Inr (v, h'))
            \<longleftrightarrow> (\<exists>vs h1. resolve_each n w items src env h = Some (Inr (vs, h1))
                  \<and> v = VRef (length h1) \<and> h' = h1 @ [Array vs])))
   \<and> (lookup h a = Some (Array items) \<and> resolve n w (VRef a) src env h = Some (Inr (v, h'))
      \<longrightarrow> (\<exists>a' items'. v = VRef a' \<and> lookup h a' = None
            \<and> lookup h' a' = Some (Array items') \<and> length items' = length items
            \<and> lookup h' a = Some (Array items)))"
proof -
  have eqn: "resolve (Suc n) w (VRef a) src env h =
            (case resolve_each n w (map snd props) src env h of
               None \<Rightarrow> None
             | Some (Inl es) \<Rightarrow> Some (Inl es)
             | Some (Inr (vs, h1)) \<Rightarrow>
                 Some (Inr (VRef a, h1[a := Object (zip (map fst props) vs)])))"
    if as: "lookup h a = Some (Object props)" "distinct (map fst props)" "region R h" "a \<notin> R"
      "\<forall>p \<in> set props. val_refs (snd p) \<subseteq> R"
    for h a props R
  proof -
    from as(1,2) have "lookup h a = Some (Object ([] @ props))" "distinct (map fst ([] @ props))"
      by simp_all
    from resolve_props_in_place [OF as(4) as(3) this as(5), of n w src env]
    have "resolve_props n w a (map fst props) src env h =
       (case resolve_each n w (map snd props) src env h of
          None \<Rightarrow> None
        | Some (Inl es) \<Rightarrow> Some (Inl es)
        | Some (Inr (vs, h1)) \<Rightarrow> Some (Inr (h1[a := Object (zip (map fst props) vs)])))"
      by (simp split: option.splits sum.splits prod.splits)
    with as(1) show ?thesis
      by (simp split: option.splits sum.splits prod.splits)
  qed
  have doc: "\<exists>a props. val = VRef a \<and> lookup h0 a = Some (Object props)
            \<and> map fst props = map fst kvs
            \<and> resolve (Suc n) w val src env h0 =
                (case resolve_each n w (map snd props) src env h0 of
                   None \<Rightarrow> None
                 | Some (Inl es) \<Rightarrow> Some (Inl es)
                 | Some (Inr (vs, h1)) \<Rightarrow>
                     Some (Inr (VRef a, h1[a := Object (zip (map fst kvs) vs)])))"
    if as: "alloc (JObject kvs) hp = (val, h0) \<and> distinct (map fst kvs)"
  proof -
    from alloc_object_region [of kvs hp val h0] as obtain R a props where
      r: "val = VRef a" "lookup h0 a = Some (Object props)" "map fst props = map fst kvs"
        "region R h0" "a \<notin> R" "\<forall>p \<in> set props. val_refs (snd p) \<subseteq> R" by blast
    from as r(3) have d: "distinct (map fst props)" by simp
    have "resolve (Suc n) w val src env h0 =
                (case resolve_each n w (map snd props) src env h0 of
                   None \<Rightarrow> None
                 | Some (Inl es) \<Rightarrow> Some (Inl es)
                 | Some (Inr (vs, h1)) \<Rightarrow>
                     Some (Inr (VRef a, h1[a := Object (zip (map fst kvs) vs)])))"
      unfolding r(1) using eqn [OF r(2) d r(4) r(5) r(6)] by (simp only: r(3))
    with r(1,2,3) show ?thesis by blast
  qed
  have obj: "v = VRef a
      \<and> (\<exists>props'. lookup h' a = Some (Object props') \<and> map fst props' = map fst props)"
    if as: "lookup h a = Some (Object props) \<and> resolve n w (VRef a) src env h = Some (Inr (v, h'))"
  proof -
  from as have le: "heap_le h h'" using resolve_heap_le(1) by blast
  from as obtain m where n: "n = Suc m" by (cases n) auto
  from as have a: "a < length h" "h ! a = Object props"
    by (auto simp: lookup_def split: if_splits)
  with le have "a < length h'" "same_shape (Object props) (h' ! a)"
    by (auto simp: heap_le_def)
  then have "\<exists>props'. lookup h' a = Some (Object props') \<and> map fst props' = map fst props"
    by (cases "h' ! a") (auto simp: lookup_def)
  moreover from as n have "v = VRef a"
    by (auto split: option.splits sum.splits)
  ultimately show ?thesis by simp
  qed
  have arr_iff: "resolve (Suc n) w (VRef a) src env h = Some (Inr (v, h'))
            \<longleftrightarrow> (\<exists>vs h1. resolve_each n w items src env h = Some (Inr (vs, h1))
                  \<and> v = VRef (length h1) \<and> h' = h1 @ [Array vs])"
    if as: "lookup h a = Some (Array items)"
  proof -
    have "resolve (Suc n) w (VRef a) src env h = Some (Inr (v, h'))
        \<longleftrightarrow> (\<exists>vs h1. resolve_items n w items src env h = Some (Inr (vs, h1))
                  \<and> v = VRef (length h1) \<and> h' = h1 @ [Array vs])"
      using as by (auto split: option.splits sum.splits)
    then show ?thesis by (simp add: resolve_items_fulfilled)
  qed
  have arr: "\<exists>a' items'. v = VRef a' \<and> lookup h a' = None
            \<and> lookup h' a' = Some (Array items') \<and> length items' = length items
            \<and> lookup h' a = Some (Array items)"
    if as: "lookup h a = Some (Array items) \<and> resolve n w (VRef a) src env h = Some (Inr (v, h'))"
  proof -
  from as obtain m where n: "n = Suc m" by (cases n) auto
  with as obtain items' h1 where
    r: "resolve_items m w items src env h = Some (Inr (items', h1))"
    and v: "v = VRef (length h1)" and h': "h' = h1 @ [Array items']"
    by (auto split: option.splits sum.splits)
  from r have le: "heap_le h h1" and len: "length items' = length items"
    using resolve_heap_le(2) by blast+
  from as have a: "a < length h" "h ! a = Array items"
    by (auto simp: lookup_def split: if_splits)
  with le have a1: "a < length h1" "h1 ! a = Array items"
    by (auto simp: heap_le_def)
  from le have "lookup h (length h1) = None" by (simp add: heap_le_def lookup_def)
  moreover from h' have "lookup h' (length h1) = Some (Array items')" by (simp add: lookup_def)
  moreover from h' a1 have "lookup h' a = Some (Array items)" by (simp add: lookup_def nth_append)
  ultimately show ?thesis using v len by blast
  qed
  have plain: "x = VNull \<or> x = VBool b \<or> x = VNumber k
        \<or> (x = VString s \<and> \<not> first_char_is s (CHR ''@''))
      \<longrightarrow> resolve (Suc n) w x src env h = Some (Inr (x, h))"
    by auto
  from plain eqn [of h a props R] doc resolve_each_length [of n w xs src env h vs h1] obj arr_iff arr
  show ?thesis by blast
qed

theorem resolve_object_in_place_witness:
  "resolve (Suc 0) demo_world (VString ''plain'')
        \<lparr>repoPath = None, filePath = ''/x/o.json'', commitish = None\<rparr> Map.empty []
     = Some (Inr (VString ''plain'', []))
   \<and> lookup [Array [VString ''@n.json''], Object [(''m'', VString ''@missing.json''), (''l'', VRef 0)]]
      (Suc 0)
     = Some (Object [(''m'', VString ''@missing.json''), (''l'', VRef 0)])
   \<and> distinct (map fst [(''m'', VString ''@missing.json''), (''l'', VRef 0)])
   \<and> region ({0} \<union> {b. 2 \<le> b})
       [Array [VString ''@n.json''], Object [(''m'', VString ''@missing.json''), (''l'', VRef 0)]]
   \<and> Suc 0 \<notin> {0} \<union> {b. 2 \<le> b}
   \<and> val_refs (VString ''@missing.json'') \<subseteq> {0} \<union> {b. 2 \<le> b}
   \<and> val_refs (VRef 0) \<subseteq> {0} \<union> {b. 2 \<le> b}
   \<and> resolve_each 4 demo_world [VString ''@missing.json'', VRef 0]
        \<lparr>repoPath = None, filePath = ''/x/o.json'', commitish = None\<rparr> Map.empty
        [Array [VString ''@n.json''], Object [(''m'', VString ''@missing.json''), (''l'', VRef 0)]]
     = Some (Inr ([VNull, VRef 2],
         [Array [VString ''@n.json''], Object [(''m'', VString ''@missing.json''), (''l'', VRef 0)],
          Array [VNull]]))
   \<and> resolve (Suc 4) demo_world (VRef (Suc 0))
        \<lparr>repoPath = None, filePath = ''/x/o.json'', commitish = None\<rparr> Map.empty
        [Array [VString ''@n.json''], Object [(''m'', VString ''@missing.json''), (''l'', VRef 0)]]
     = Some (Inr (VRef (Suc 0),
         [Array [VString ''@n.json''], Object [(''m'', VNull), (''l'', VRef 2)], Array [VNull]]))
   \<and> alloc (JObject [(''m'', JString ''@missing.json''), (''l'', JArray [JString ''@n.json''])]) []
     = (VRef (Suc 0),
        [Array [VString ''@n.json''], Object [(''m'', VString ''@missing.json''), (''l'', VRef 0)]])
   \<and> lookup [Array [VString ''@n.json''], Object [(''m'', VString ''@missing.json''), (''l'', VRef 0)]] 0
     = Some (Array [VString ''@n.json''])
   \<and> resolve_each 3 demo_world [VString ''@n.json'']
        \<lparr>repoPath = None, filePath = ''/x/o.json'', commitish = None\<rparr> Map.empty
        [Array [VString ''@n.json''], Object [(''m'', VString ''@missing.json''), (''l'', VRef 0)]]
     = Some (Inr ([VNull],
         [Array [VString ''@n.json''], Object [(''m'', VString ''@missing.json''), (''l'', VRef 0)]]))
   \<and> resolve (Suc 3) demo_world (VRef 0)
        \<lparr>repoPath = None, filePath = ''/x/o.json'', commitish = None\<rparr> Map.empty
        [Array [VString ''@n.json''], Object [(''m'', VString ''@missing.json''), (''l'', VRef 0)]]
     = Some (Inr (VRef 2,
         [Array [VString ''@n.json''], Object [(''m'', VString ''@missing.json''), (''l'', VRef 0)],
          Array [VNull]]))"
proof -
  let ?src = "\<lparr>repoPath = None, filePath = ''/x/o.json'', commitish = None\<rparr>"
  let ?props = "[(''m'', VString ''@missing.json''), (''l'', VRef 0)]"
  let ?h = "[Array [VString ''@n.json''], Object ?props]"
  let ?h1 = "[Array [VString ''@n.json''], Object [(''m'', VNull), (''l'', VRef 2)], Array [VNull]]"
  let ?h2 = "[Array [VString ''@n.json''], Object ?props, Array [VNull]]"
  let ?R = "{0} \<union> {b. 2 \<le> b} :: nat set"
  have e1: "resolve_each 4 demo_world [VString ''@missing.json'', VRef 0] ?src Map.empty ?h
      = Some (Inr ([VNull, VRef 2], ?h2))"
    by code_simp
  have e2: "resolve_each 3 demo_world [VString ''@n.json''] ?src Map.empty ?h
      = Some (Inr ([VNull], ?h))"
    by code_simp
  have al: "alloc (JObject [(''m'', JString ''@missing.json''), (''l'', JArray [JString ''@n.json''])]) []
      = (VRef (Suc 0), ?h)"
    by simp
  have l: "lookup ?h (Suc 0) = Some (Object ?props)" "lookup ?h 0 = Some (Array [VString ''@n.json''])"
    by (simp_all add: lookup_def)
  have d: "distinct (map fst ?props)" by simp
  have a0: "b = 0" if "b \<in> ?R" "b < 2" for b using that by auto
  have rg: "region ?R ?h"
    unfolding region_def
  proof (intro conjI allI impI ballI)
    fix b :: nat assume "length ?h \<le> b"
    then show "b \<in> ?R" by simp
  next
    fix b assume "b \<in> ?R" "b < length ?h"
    with a0 [of b] have "b = 0" by simp
    then show "cell_refs (?h ! b) \<subseteq> ?R" by simp
  qed
  have nr: "Suc 0 \<notin> ?R" by simp
  have vr: "val_refs (VString ''@missing.json'') \<subseteq> ?R" "val_refs (VRef 0) \<subseteq> ?R" by simp_all
  from vr have vr': "\<forall>p \<in> set ?props. val_refs (snd p) \<subseteq> ?R" by simp
  have r1: "resolve (Suc 4) demo_world (VRef (Suc 0)) ?src Map.empty ?h
      = Some (Inr (VRef (Suc 0), ?h1))"
    using conjunct1 [OF conjunct2 [OF resolve_object_in_place
        [of _ _ _ _ 4 demo_world ?src Map.empty ?h "Suc 0" ?props ?R]]] l(1) d rg nr vr' e1
    by (simp del: resolve.simps resolve_each.simps)
  have r2: "resolve (Suc 3) demo_world (VRef 0) ?src Map.empty ?h = Some (Inr (VRef 2, ?h2))"
    using resolve_object_in_place
        [of _ _ _ _ 3 demo_world ?src Map.empty ?h 0 _ _ _ _ _ _ _ _ _ "VRef 2" ?h2
            "[VString ''@n.json'']"]
      l(2) e2
    by (simp del: resolve.simps resolve_each.simps)
  have r0: "resolve (Suc 0) demo_world (VString ''plain'') ?src Map.empty []
      = Some (Inr (VString ''plain'', []))"
    using conjunct1 [OF resolve_object_in_place
        [of "VString ''plain''" _ _ "''plain''" 0 demo_world ?src Map.empty "[]"]]
    by (simp add: first_char_is_def del: resolve.simps)
  from r0 l d rg nr vr e1 e2 al r1 r2 show ?thesis
    by (simp del: resolve.simps resolve_each.simps)
qed

section \<open>Earlier revisions of the sources\<close>

text \<open>
  The draft of \<^verbatim>\<open>lib/source.js\<close>. Its constructor tests \<^verbatim>\<open>if( idx )\<close>, which is
  true for every index but \<open>0\<close>, \<open>-1\<close> included: a path without \<^verbatim>\<open>#\<close> ends up as the
  revision, with an empty \<open>filePath\<close>. Its \<^verbatim>\<open>resolve\<close> joins the reference onto
  \<^verbatim>\<open>this.filePath\<close> itself.
\<close>

definition new_Source_draft :: "string option \<Rightarrow> string \<Rightarrow> string option \<Rightarrow> source" where
  "new_Source_draft rp fp c =
     (let idx = indexOf fp (CHR ''#'')
      in if idx \<noteq> 0
         then \<lparr>repoPath = rp, filePath = substring fp 0 idx,
               commitish = Some (substring_from fp (idx + 1))\<rparr>
         else \<lparr>repoPath = rp, filePath = fp, commitish = c\<rparr>)"

definition Source_resolve_draft :: "source \<Rightarrow> reference \<Rightarrow> source" where
  "Source_resolve_draft this r =
     (let fp = ref_path r;
          fp' = (if \<not> first_char_is fp (CHR ''/'') then path_join [filePath this, fp] else fp)
      in new_Source_draft (repoPath this) fp' (commitish this))"

lemma new_Source_draft_examples:
  "new_Source_draft None ''/x/a.json'' None =
     \<lparr>repoPath = None, filePath = '''', commitish = Some ''/x/a.json''\<rparr>"
  "new_Source_draft None ''/x/a.json#v1'' None =
     \<lparr>repoPath = None, filePath = ''/x/a.json'', commitish = Some ''v1''\<rparr>"
  "path_join [''/x/a.json'', ''b.json''] = ''/x/a.json/b.json''"
  by code_simp+

text \<open>
  The revision of \<^verbatim>\<open>lib/index.js\<close> that passes directory names. For a link its
  \<^verbatim>\<open>resolve\<close> computes the expanded path and the flag as the later revision does, and
  then hands \<^verbatim>\<open>Path.resolve( dirname, value.substring( 1 ) )\<close> to the loader: the text
  of the link as it stands, with its marker and its variables.
  \<open>path_resolve2\<close> is \<^verbatim>\<open>Path.resolve\<close> with two arguments.
\<close>

definition path_resolve2 :: "string \<Rightarrow> string \<Rightarrow> string \<Rightarrow> string" where
  "path_resolve2 wd a b =
     (let r1 = (if b = [] then [] else b @ ''/'');
          abs1 = first_char_is b (CHR ''/'');
          r2 = (if abs1 \<or> a = [] then r1 else a @ ''/'' @ r1);
          abs2 = (abs1 \<or> first_char_is a (CHR ''/''));
          r3 = (if abs2 \<or> wd = [] then r2 else wd @ ''/'' @ r2);
          abs3 = (abs2 \<or> first_char_is wd (CHR ''/''));
          r = normalizeString r3 (\<not> abs3)
      in if abs3 then CHR ''/'' # r else if r \<noteq> [] then r else ''.'')"

definition link_by_dirname :: "string \<Rightarrow> string \<Rightarrow> string \<Rightarrow> env \<Rightarrow> string \<times> bool" where
  "link_by_dirname wd val dirname env =
     (let path = replace (substring_from val 1) env;
          required = first_char_is path (CHR ''!'');
          path' = (if required then substring_from path 1 else path);
          path'' = path_resolve2 wd dirname (substring_from val 1)
      in (path'', required))"

lemma link_by_dirname_examples:
  "link_by_dirname ''/'' ''@!data/file.json'' ''/x'' Map.empty = (''/x/!data/file.json'', True)"
  "link_by_dirname ''/'' ''@lang/${locale}/data.json'' ''/x'' [''locale'' \<mapsto> ''en'']
     = (''/x/lang/${locale}/data.json'', False)"
  by code_simp+

text \<open>
  The first revision of \<^verbatim>\<open>lib/git.js\<close> compares the standard output with
  \<^verbatim>\<open>'true'\<close> untrimmed; \<^verbatim>\<open>git\<close> ends the line it prints, so the answer is
  \<^verbatim>\<open>false\<close> for a bare repository too.
\<close>

definition isBare_untrimmed :: "world \<Rightarrow> string \<Rightarrow> error + bool" where
  "isBare_untrimmed w path =
     (let try_body =
            (case git w path [''rev-parse'', ''--is-bare-repository''] of
               Inl e \<Rightarrow> Inl e
             | Inr r \<Rightarrow> Inr (stdout r = ''true''))
      in case try_body of
           Inr b \<Rightarrow> Inr b
         | Inl e \<Rightarrow> Inr False)"

lemma isBare_untrimmed_example: "isBare_untrimmed git_world ''/srv/repo.git'' = Inr False"
  by code_simp

end
